theory Spec2Isabelle
  imports Main "HOL-Library.AList"
begin

section \<open>Strings\<close>

text \<open>
  A JavaScript string is modelled as a \<^typ>\<open>string\<close>, the sequence of the bytes of its
  UTF-8 encoding. Every character the program inspects (digits, letters, \<open>@\<close>, CR, LF, the
  verbs \<open>HELO\<close>, \<open>MAIL\<close>, \<open>RCPT\<close>) is ASCII, so a test on code units and the same test
  on bytes agree.
\<close>

text \<open>\<open>s.split(sep)[1]\<close>-style splitting on one character: \<open>split_on c s\<close> is
  \<open>s.split(c)\<close>; it always has at least one element.\<close>

fun split_on :: "char \<Rightarrow> string \<Rightarrow> string list" where
  "split_on c [] = [[]]"
| "split_on c (x # xs) =
     (if x = c then [] # split_on c xs
      else (case split_on c xs of
              [] \<Rightarrow> [[x]]
            | l # ls \<Rightarrow> (x # l) # ls))"

text \<open>\<open>email.split('@')[1]\<close>, defined when the address contains \<open>@\<close>.\<close>

definition domain_of :: "string \<Rightarrow> string option" where
  "domain_of addr = (case split_on (CHR ''@'') addr of
                       _ # d # _ \<Rightarrow> Some d
                     | _ \<Rightarrow> None)"

text \<open>\<open>s.startsWith(p)\<close> and \<open>s.includes(sub)\<close>.\<close>

definition startsWith :: "string \<Rightarrow> string \<Rightarrow> bool" where
  "startsWith s p = (take (length p) s = p)"

fun includes_str :: "string \<Rightarrow> string \<Rightarrow> bool" where
  "includes_str [] sub = (sub = [])"
| "includes_str (c # cs) sub = (take (length sub) (c # cs) = sub \<or> includes_str cs sub)"

text \<open>\<open>s.split('\r\n')\<close>\<close>

fun split_crlf :: "string \<Rightarrow> string list" where
  "split_crlf [] = [[]]"
| "split_crlf [c] = [[c]]"
| "split_crlf (c # d # cs) =
     (if c = CHR 0x0D \<and> d = CHR 0x0A then [] # split_crlf cs
      else (case split_crlf (d # cs) of
              [] \<Rightarrow> [[c]]
            | l # ls \<Rightarrow> (c # l) # ls))"

text \<open>
  \<open>parseInt(s)\<close> without a radix: leading white space is skipped, a sign is read, a prefix
  \<open>0x\<close> or \<open>0X\<close> selects radix 16, and the longest run of digits is converted; \<open>NaN\<close>
  (here \<open>None\<close>) when there is no digit. The program applies it to at most three
  characters, so the result is exact. White space outside ASCII is not skipped here; a
  number read after any white space has at most two digits, and the program compares the
  result only with numbers from 421 on.
\<close>

definition is_white_space :: "char \<Rightarrow> bool" where
  "is_white_space c \<longleftrightarrow> c \<in> set [CHR 0x09, CHR 0x0A, CHR 0x0B, CHR 0x0C, CHR 0x0D, CHR 0x20]"

definition dec_digit :: "char \<Rightarrow> nat option" where
  "dec_digit c =
     (let n = (of_char c :: nat)
      in if 48 \<le> n \<and> n \<le> 57 then Some (n - 48) else None)"

definition hex_digit :: "char \<Rightarrow> nat option" where
  "hex_digit c =
     (let n = (of_char c :: nat)
      in if 48 \<le> n \<and> n \<le> 57 then Some (n - 48)
         else if 65 \<le> n \<and> n \<le> 70 then Some (n - 55)
         else if 97 \<le> n \<and> n \<le> 102 then Some (n - 87)
         else None)"

fun digits_value :: "nat \<Rightarrow> (char \<Rightarrow> nat option) \<Rightarrow> nat \<Rightarrow> string \<Rightarrow> nat" where
  "digits_value radix dig acc [] = acc"
| "digits_value radix dig acc (c # cs) =
     (case dig c of
        None \<Rightarrow> acc
      | Some d \<Rightarrow> digits_value radix dig (acc * radix + d) cs)"

definition parse_digits :: "nat \<Rightarrow> (char \<Rightarrow> nat option) \<Rightarrow> string \<Rightarrow> nat option" where
  "parse_digits radix dig s =
     (case s of
        [] \<Rightarrow> None
      | c # _ \<Rightarrow> (case dig c of
                    None \<Rightarrow> None
                  | Some _ \<Rightarrow> Some (digits_value radix dig 0 s)))"

definition parseInt :: "string \<Rightarrow> int option" where
  "parseInt s =
     (let s1 = dropWhile is_white_space s;
          neg = (s1 \<noteq> [] \<and> hd s1 = CHR ''-'');
          s2 = (if s1 \<noteq> [] \<and> (hd s1 = CHR ''-'' \<or> hd s1 = CHR ''+'') then tl s1 else s1);
          n = (if take 2 s2 = ''0x'' \<or> take 2 s2 = ''0X''
               then parse_digits 16 hex_digit (drop 2 s2)
               else parse_digits 10 dec_digit s2)
      in map_option (\<lambda>v. if neg then - int v else int v) n)"

section \<open>Promises\<close>

text \<open>How an awaited promise ends: fulfilled with a value, rejected with an error (its
  message), or never settled.\<close>

datatype 'a promise = Resolved 'a | Rejected string | Pending

section \<open>Verdicts\<close>

text \<open>
  The object a probe resolves with has the fields \<open>isValid\<close>, \<open>message\<close> and \<open>category\<close>;
  the verdict of \<open>verifyEmail\<close> has the same three fields and, in addition, \<open>email\<close> and
  \<open>details\<close> (with the optional members \<open>mxRecords\<close> and \<open>smtpServer\<close>).
\<close>

record smtp_result =
  isValid :: bool
  message :: string
  category :: string

record verdict = smtp_result +
  email :: string
  mxRecords :: "string list option"
  smtpServer :: "string option"

text \<open>The source's literal is Russian for \<open>Invalid email format\<close>; it is given by its UTF-8 bytes.\<close>

definition msg_invalid_format :: string where
  "msg_invalid_format =
     [CHR 0xD0, CHR 0x9D, CHR 0xD0, CHR 0xB5, CHR 0xD0, CHR 0xB2, CHR 0xD0, CHR 0xB5, CHR 0xD1,
      CHR 0x80, CHR 0xD0, CHR 0xBD, CHR 0xD1, CHR 0x8B, CHR 0xD0, CHR 0xB9, CHR '' '',
      CHR 0xD1, CHR 0x84, CHR 0xD0, CHR 0xBE, CHR 0xD1, CHR 0x80, CHR 0xD0, CHR 0xBC, CHR 0xD0,
      CHR 0xB0, CHR 0xD1, CHR 0x82, CHR '' '', CHR ''e'', CHR ''m'', CHR ''a'', CHR ''i'',
      CHR ''l'']"

text \<open>The source's literal is Russian for \<open>MX records not found\<close>; it is given by its UTF-8 bytes.\<close>

definition msg_no_mx :: string where
  "msg_no_mx =
     [CHR ''M'', CHR ''X'', CHR '' '', CHR 0xD0, CHR 0xB7, CHR 0xD0, CHR 0xB0, CHR 0xD0,
      CHR 0xBF, CHR 0xD0, CHR 0xB8, CHR 0xD1, CHR 0x81, CHR 0xD0, CHR 0xB8, CHR '' '',
      CHR 0xD0, CHR 0xBD, CHR 0xD0, CHR 0xB5, CHR '' '', CHR 0xD0, CHR 0xBD, CHR 0xD0,
      CHR 0xB0, CHR 0xD0, CHR 0xB9, CHR 0xD0, CHR 0xB4, CHR 0xD0, CHR 0xB5, CHR 0xD0, CHR 0xBD,
      CHR 0xD1, CHR 0x8B]"

text \<open>The source's literal is Russian for \<open>MX record lookup error\<close>; it is given by its UTF-8 bytes.\<close>

definition msg_dns_error :: string where
  "msg_dns_error =
     [CHR 0xD0, CHR 0x9E, CHR 0xD1, CHR 0x88, CHR 0xD0, CHR 0xB8, CHR 0xD0, CHR 0xB1, CHR 0xD0,
      CHR 0xBA, CHR 0xD0, CHR 0xB0, CHR '' '', CHR 0xD0, CHR 0xBF, CHR 0xD0, CHR 0xBE,
      CHR 0xD0, CHR 0xB8, CHR 0xD1, CHR 0x81, CHR 0xD0, CHR 0xBA, CHR 0xD0, CHR 0xB0,
      CHR '' '', CHR ''M'', CHR ''X'', CHR '' '', CHR 0xD0, CHR 0xB7, CHR 0xD0, CHR 0xB0,
      CHR 0xD0, CHR 0xBF, CHR 0xD0, CHR 0xB8, CHR 0xD1, CHR 0x81, CHR 0xD0, CHR 0xB5, CHR 0xD0,
      CHR 0xB9]"

text \<open>The source's literal is Russian for \<open>Email exists\<close>; it is given by its UTF-8 bytes.\<close>

definition msg_exists :: string where
  "msg_exists =
     [CHR ''E'', CHR ''m'', CHR ''a'', CHR ''i'', CHR ''l'', CHR '' '', CHR 0xD1, CHR 0x81,
      CHR 0xD1, CHR 0x83, CHR 0xD1, CHR 0x89, CHR 0xD0, CHR 0xB5, CHR 0xD1, CHR 0x81, CHR 0xD1,
      CHR 0x82, CHR 0xD0, CHR 0xB2, CHR 0xD1, CHR 0x83, CHR 0xD0, CHR 0xB5, CHR 0xD1, CHR 0x82]"

text \<open>The source's literal is Russian for \<open>All SMTP servers are unreachable\<close>; it is given by its UTF-8 bytes.\<close>

definition msg_unreachable :: string where
  "msg_unreachable =
     [CHR 0xD0, CHR 0x92, CHR 0xD1, CHR 0x81, CHR 0xD0, CHR 0xB5, CHR '' '', CHR ''S'',
      CHR ''M'', CHR ''T'', CHR ''P'', CHR '' '', CHR 0xD1, CHR 0x81, CHR 0xD0, CHR 0xB5,
      CHR 0xD1, CHR 0x80, CHR 0xD0, CHR 0xB2, CHR 0xD0, CHR 0xB5, CHR 0xD1, CHR 0x80, CHR 0xD1,
      CHR 0x8B, CHR '' '', CHR 0xD0, CHR 0xBD, CHR 0xD0, CHR 0xB5, CHR 0xD0, CHR 0xB4,
      CHR 0xD0, CHR 0xBE, CHR 0xD1, CHR 0x81, CHR 0xD1, CHR 0x82, CHR 0xD1, CHR 0x83, CHR 0xD0,
      CHR 0xBF, CHR 0xD0, CHR 0xBD, CHR 0xD1, CHR 0x8B]"

text \<open>The source's literal is Russian for \<open>Connection timeout\<close>; it is given by its UTF-8 bytes.\<close>

definition msg_timeout :: string where
  "msg_timeout =
     [CHR 0xD0, CHR 0xA2, CHR 0xD0, CHR 0xB0, CHR 0xD0, CHR 0xB9, CHR 0xD0, CHR 0xBC, CHR 0xD0,
      CHR 0xB0, CHR 0xD1, CHR 0x83, CHR 0xD1, CHR 0x82, CHR '' '', CHR 0xD0, CHR 0xBF,
      CHR 0xD0, CHR 0xBE, CHR 0xD0, CHR 0xB4, CHR 0xD0, CHR 0xBA, CHR 0xD0, CHR 0xBB, CHR 0xD1,
      CHR 0x8E, CHR 0xD1, CHR 0x87, CHR 0xD0, CHR 0xB5, CHR 0xD0, CHR 0xBD, CHR 0xD0, CHR 0xB8,
      CHR 0xD1, CHR 0x8F]"

text \<open>The source's literal is Russian for \<open>Email does not exist\<close>; it is given by its UTF-8 bytes.\<close>

definition msg_not_existing :: string where
  "msg_not_existing =
     [CHR ''E'', CHR ''m'', CHR ''a'', CHR ''i'', CHR ''l'', CHR '' '', CHR 0xD0, CHR 0xBD,
      CHR 0xD0, CHR 0xB5, CHR '' '', CHR 0xD1, CHR 0x81, CHR 0xD1, CHR 0x83, CHR 0xD1,
      CHR 0x89, CHR 0xD0, CHR 0xB5, CHR 0xD1, CHR 0x81, CHR 0xD1, CHR 0x82, CHR 0xD0, CHR 0xB2,
      CHR 0xD1, CHR 0x83, CHR 0xD0, CHR 0xB5, CHR 0xD1, CHR 0x82]"

text \<open>The source's literal is Russian for \<open>Mailbox error\<close>; it is given by its UTF-8 bytes.\<close>

definition msg_mailbox_error :: string where
  "msg_mailbox_error =
     [CHR 0xD0, CHR 0x9E, CHR 0xD1, CHR 0x88, CHR 0xD0, CHR 0xB8, CHR 0xD0, CHR 0xB1, CHR 0xD0,
      CHR 0xBA, CHR 0xD0, CHR 0xB0, CHR '' '', CHR 0xD0, CHR 0xBF, CHR 0xD0, CHR 0xBE,
      CHR 0xD1, CHR 0x87, CHR 0xD1, CHR 0x82, CHR 0xD0, CHR 0xBE, CHR 0xD0, CHR 0xB2, CHR 0xD0,
      CHR 0xBE, CHR 0xD0, CHR 0xB3, CHR 0xD0, CHR 0xBE, CHR '' '', CHR 0xD1, CHR 0x8F,
      CHR 0xD1, CHR 0x89, CHR 0xD0, CHR 0xB8, CHR 0xD0, CHR 0xBA, CHR 0xD0, CHR 0xB0]"

text \<open>The source's literal is Russian for \<open>Temporary server error\<close>; it is given by its UTF-8 bytes.\<close>

definition msg_temporary_error :: string where
  "msg_temporary_error =
     [CHR 0xD0, CHR 0x92, CHR 0xD1, CHR 0x80, CHR 0xD0, CHR 0xB5, CHR 0xD0, CHR 0xBC, CHR 0xD0,
      CHR 0xB5, CHR 0xD0, CHR 0xBD, CHR 0xD0, CHR 0xBD, CHR 0xD0, CHR 0xB0, CHR 0xD1, CHR 0x8F,
      CHR '' '', CHR 0xD0, CHR 0xBE, CHR 0xD1, CHR 0x88, CHR 0xD0, CHR 0xB8, CHR 0xD0,
      CHR 0xB1, CHR 0xD0, CHR 0xBA, CHR 0xD0, CHR 0xB0, CHR '' '', CHR 0xD1, CHR 0x81,
      CHR 0xD0, CHR 0xB5, CHR 0xD1, CHR 0x80, CHR 0xD0, CHR 0xB2, CHR 0xD0, CHR 0xB5, CHR 0xD1,
      CHR 0x80, CHR 0xD0, CHR 0xB0]"

text \<open>The source's literal is Russian for \<open>Server error:\<close>; it is given by its UTF-8 bytes.\<close>

definition msg_server_error :: string where
  "msg_server_error =
     [CHR 0xD0, CHR 0x9E, CHR 0xD1, CHR 0x88, CHR 0xD0, CHR 0xB8, CHR 0xD0, CHR 0xB1, CHR 0xD0,
      CHR 0xBA, CHR 0xD0, CHR 0xB0, CHR '' '', CHR 0xD1, CHR 0x81, CHR 0xD0, CHR 0xB5,
      CHR 0xD1, CHR 0x80, CHR 0xD0, CHR 0xB2, CHR 0xD0, CHR 0xB5, CHR 0xD1, CHR 0x80, CHR 0xD0,
      CHR 0xB0, CHR '':'', CHR '' '']"

text \<open>The source's literal is Russian for \<open>Connection error:\<close>; it is given by its UTF-8 bytes.\<close>

definition msg_connection_error :: string where
  "msg_connection_error =
     [CHR 0xD0, CHR 0x9E, CHR 0xD1, CHR 0x88, CHR 0xD0, CHR 0xB8, CHR 0xD0, CHR 0xB1, CHR 0xD0,
      CHR 0xBA, CHR 0xD0, CHR 0xB0, CHR '' '', CHR 0xD0, CHR 0xBF, CHR 0xD0, CHR 0xBE,
      CHR 0xD0, CHR 0xB4, CHR 0xD0, CHR 0xBA, CHR 0xD0, CHR 0xBB, CHR 0xD1, CHR 0x8E, CHR 0xD1,
      CHR 0x87, CHR 0xD0, CHR 0xB5, CHR 0xD0, CHR 0xBD, CHR 0xD0, CHR 0xB8, CHR 0xD1, CHR 0x8F,
      CHR '':'', CHR '' '']"

text \<open>The source's literal is Russian for \<open>Processing error:\<close>; it is given by its UTF-8 bytes.\<close>

definition msg_processing_error :: string where
  "msg_processing_error =
     [CHR 0xD0, CHR 0x9E, CHR 0xD1, CHR 0x88, CHR 0xD0, CHR 0xB8, CHR 0xD0, CHR 0xB1, CHR 0xD0,
      CHR 0xBA, CHR 0xD0, CHR 0xB0, CHR '' '', CHR 0xD0, CHR 0xBE, CHR 0xD0, CHR 0xB1,
      CHR 0xD1, CHR 0x80, CHR 0xD0, CHR 0xB0, CHR 0xD0, CHR 0xB1, CHR 0xD0, CHR 0xBE, CHR 0xD1,
      CHR 0x82, CHR 0xD0, CHR 0xBA, CHR 0xD0, CHR 0xB8, CHR '':'', CHR '' '']"

section \<open>Format check: \<open>isValidFormat\<close>\<close>

text \<open>
  The pattern of \<open>isValidFormat\<close> is a sequence of character classes, each with a
  repetition range, between \<open>^\<close> and \<open>$\<close>. A class is a list of ranges and single
  characters; a piece is a class with its least and greatest number of repetitions
  (\<open>None\<close>: no upper limit). \<open>matches ps s\<close> is \<open>/^ps$/.test(s)\<close>: the whole of \<open>s\<close>
  splits into consecutive runs, one per piece. Every character a class of the pattern
  accepts is ASCII, so an accepted address has as many bytes as code units.
\<close>

datatype class_item = Range char char | Single char

fun in_item :: "class_item \<Rightarrow> char \<Rightarrow> bool" where
  "in_item (Range lo hi) c \<longleftrightarrow> (of_char lo :: nat) \<le> of_char c \<and> (of_char c :: nat) \<le> of_char hi"
| "in_item (Single x) c \<longleftrightarrow> c = x"

definition in_class :: "class_item list \<Rightarrow> char \<Rightarrow> bool" where
  "in_class cl c = list_ex (\<lambda>i. in_item i c) cl"

datatype piece = Piece "class_item list" nat "nat option"

fun matches :: "piece list \<Rightarrow> string \<Rightarrow> bool" where
  "matches [] s \<longleftrightarrow> s = []"
| "matches (Piece cl lo hi # ps) s \<longleftrightarrow>
     list_ex (\<lambda>k. list_all (in_class cl) (take k s) \<and> matches ps (drop k s))
       [lo ..< Suc (case hi of None \<Rightarrow> length s | Some h \<Rightarrow> min h (length s))]"

text \<open>\<open>[a-zA-Z0-9]\<close>, \<open>[a-zA-Z0-9._%+-]\<close>, \<open>[a-zA-Z0-9.-]\<close> and \<open>[a-zA-Z]\<close>\<close>

definition cls_alnum :: "class_item list" where
  "cls_alnum = [Range (CHR ''a'') (CHR ''z''), Range (CHR ''A'') (CHR ''Z''),
                Range (CHR ''0'') (CHR ''9'')]"

definition cls_local :: "class_item list" where
  "cls_local = [Range (CHR ''a'') (CHR ''z''), Range (CHR ''A'') (CHR ''Z''),
                Range (CHR ''0'') (CHR ''9''), Single (CHR ''.''), Single (CHR ''_''),
                Single (CHR ''%''), Single (CHR ''+''), Single (CHR ''-'')]"

definition cls_domain :: "class_item list" where
  "cls_domain = [Range (CHR ''a'') (CHR ''z''), Range (CHR ''A'') (CHR ''Z''),
                 Range (CHR ''0'') (CHR ''9''), Single (CHR ''.''), Single (CHR ''-'')]"

definition cls_alpha :: "class_item list" where
  "cls_alpha = [Range (CHR ''a'') (CHR ''z''), Range (CHR ''A'') (CHR ''Z'')]"

definition pattern :: "piece list" where
  "pattern =
     [Piece cls_alnum 1 (Some 1), Piece cls_local 0 (Some 63),
      Piece [Single (CHR ''@'')] 1 (Some 1),
      Piece cls_alnum 1 (Some 1), Piece cls_domain 0 (Some 253),
      Piece [Single (CHR ''.'')] 1 (Some 1),
      Piece cls_alpha 2 None]"

definition isValidFormat :: "string \<Rightarrow> bool" where
  "isValidFormat addr = matches pattern addr"

declare matches.simps(2) [simp del]

section \<open>MX lookup: \<open>getMxRecords\<close>\<close>

record mx_record =
  exchange :: string
  priority :: nat

text \<open>What \<open>dns.resolveMx\<close> passes to its callback: the error, if any, and the
  addresses, if any.\<close>

datatype dns_reply = DnsReply "string option" "mx_record list option"

text \<open>An argument of the callback is truthy when it is present, falsy when it is
  \<open>undefined\<close> or \<open>null\<close>.\<close>

fun truthy :: "'a option \<Rightarrow> bool" where
  "truthy (Some x) = True"
| "truthy None = False"

fun falsy :: "'a option \<Rightarrow> bool" where
  "falsy (Some x) = False"
| "falsy None = True"

text \<open>
  The promise settles in the callback, and the callback only ever calls \<open>resolve\<close>. The
  domain is the second element of \<open>email.split('@')\<close>; were it \<open>undefined\<close>, the call of
  \<open>dns.resolveMx\<close> would throw inside the executor and reject the promise.
\<close>

definition getMxRecords :: "(string \<Rightarrow> dns_reply) \<Rightarrow> string option \<Rightarrow> string list promise" where
  "getMxRecords lookup name =
     (case name of
        None \<Rightarrow> Rejected ''ERR_INVALID_ARG_TYPE''
      | Some d \<Rightarrow>
          (case lookup d of
             DnsReply err addresses \<Rightarrow>
               if truthy err \<or> falsy addresses \<or> length (the addresses) = 0
               then Resolved []
               else Resolved (map exchange (sort_key priority (the addresses)))))"

section \<open>One SMTP probe: \<open>checkSmtpServer\<close>\<close>

text \<open>The events a probe reacts to: the four socket events it listens to, and the expiry
  of its timer.\<close>

datatype socket_event = Connect | Data string | SocketError string | End | TimerFires

text \<open>The state of a probe: the read buffer, whether the timer is still pending, the value
  the promise has settled with, and what has been written to the socket.\<close>

record probe =
  responseBuffer :: string
  timer_pending :: bool
  settled :: "smtp_result option"
  written :: "string list"

definition initial_probe :: probe where
  "initial_probe = \<lparr>responseBuffer = [], timer_pending = True, settled = None, written = []\<rparr>"

definition cleanup :: "probe \<Rightarrow> probe" where
  "cleanup p = p\<lparr>timer_pending := False, written := written p @ [''QUIT'' @ [CHR 0x0D, CHR 0x0A]]\<rparr>"

text \<open>\<open>resolve(r)\<close>: a promise settles once.\<close>

definition resolve :: "smtp_result \<Rightarrow> probe \<Rightarrow> probe" where
  "resolve r p = (case settled p of None \<Rightarrow> p\<lparr>settled := Some r\<rparr> | Some _ \<Rightarrow> p)"

text \<open>What the data handler does with one complete line.\<close>

datatype line_action = Send string | Settle smtp_result | Skip

definition handle_line :: "string \<Rightarrow> string \<Rightarrow> line_action" where
  "handle_line addr line =
     (let code = parseInt (take 3 line)
      in if startsWith line ''220''
         then Send (''HELO email-validator.com'' @ [CHR 0x0D, CHR 0x0A])
         else if startsWith line ''250'' \<and> includes_str line ''HELO''
         then Send (''MAIL FROM: <check@email-validator.com>'' @ [CHR 0x0D, CHR 0x0A])
         else if startsWith line ''250'' \<and> includes_str line ''MAIL''
         then Send (''RCPT TO: <'' @ addr @ ''>'' @ [CHR 0x0D, CHR 0x0A])
         else if startsWith line ''250'' \<and> includes_str line ''RCPT''
         then Settle \<lparr>isValid = True, message = msg_exists, category = ''valid''\<rparr>
         else if code = Some 550 \<or> code = Some 551
         then Settle \<lparr>isValid = False, message = msg_not_existing, category = ''not_existing''\<rparr>
         else if code = Some 552 \<or> code = Some 553
         then Settle \<lparr>isValid = False, message = msg_mailbox_error, category = ''mailbox_error''\<rparr>
         else if code = Some 421 \<or> code = Some 450
         then Settle \<lparr>isValid = False, message = msg_temporary_error,
                      category = ''temporary_error''\<rparr>
         else if (case code of None \<Rightarrow> False | Some n \<Rightarrow> 500 \<le> n \<and> n \<le> 599)
         then Settle \<lparr>isValid = False, message = msg_server_error @ line,
                      category = ''smtp_error''\<rparr>
         else Skip)"

text \<open>The loop over the complete lines; it returns at the first line that settles.\<close>

fun process_lines :: "string \<Rightarrow> string list \<Rightarrow> probe \<Rightarrow> probe" where
  "process_lines addr [] p = p"
| "process_lines addr (line # rest) p =
     (case handle_line addr line of
        Send cmd \<Rightarrow> process_lines addr rest (p\<lparr>written := written p @ [cmd]\<rparr>)
      | Settle r \<Rightarrow> resolve r (cleanup p)
      | Skip \<Rightarrow> process_lines addr rest p)"

text \<open>The data handler appends to the buffer and goes through all lines of the buffer
  but the last, unterminated one. The buffer is not shortened.\<close>

definition on_data :: "string \<Rightarrow> string \<Rightarrow> probe \<Rightarrow> probe" where
  "on_data addr chunk p =
     (let p1 = p\<lparr>responseBuffer := responseBuffer p @ chunk\<rparr>
      in process_lines addr (butlast (split_crlf (responseBuffer p1))) p1)"

definition on_event :: "string \<Rightarrow> probe \<Rightarrow> socket_event \<Rightarrow> probe" where
  "on_event addr p ev =
     (case ev of
        Connect \<Rightarrow> p\<lparr>responseBuffer := []\<rparr>
      | Data chunk \<Rightarrow> on_data addr chunk p
      | SocketError msg \<Rightarrow>
          resolve \<lparr>isValid = False, message = msg_connection_error @ msg,
                   category = ''connection_error''\<rparr> (cleanup p)
      | End \<Rightarrow> cleanup p
      | TimerFires \<Rightarrow>
          if timer_pending p
          then resolve \<lparr>isValid = False, message = msg_timeout, category = ''smtp_timeout''\<rparr>
                 (cleanup p)
          else p)"

text \<open>
  A probe of \<open>mxHost\<close> for \<open>addr\<close>, given the events on its socket in the order they occur.
  A timer that is still pending after them expires. The promise is never rejected.
\<close>

definition checkSmtpServer :: "socket_event list \<Rightarrow> string \<Rightarrow> string \<Rightarrow> smtp_result promise" where
  "checkSmtpServer events mxHost addr =
     (case settled (foldl (on_event addr) initial_probe (events @ [TimerFires])) of
        Some r \<Rightarrow> Resolved r
      | None \<Rightarrow> Pending)"

section \<open>One address: \<open>verifyEmail\<close>\<close>

text \<open>The network as one call of \<open>verifyEmail\<close> sees it: the answer of the resolver for a
  domain, and the socket events of the probe of the \<open>i\<close>-th host of the list.\<close>

record network =
  resolveMx :: "string \<Rightarrow> dns_reply"
  sockets :: "nat \<Rightarrow> socket_event list"

text \<open>
  The loop over the MX hosts, from the \<open>i\<close>-th on. Besides the outcome it returns the hosts
  it has probed, in order.
\<close>

fun probe_hosts ::
  "(nat \<Rightarrow> socket_event list) \<Rightarrow> string \<Rightarrow> nat \<Rightarrow> string list \<Rightarrow> verdict
     \<Rightarrow> string list \<times> verdict promise" where
  "probe_hosts socks addr i [] result =
     ([], Resolved (if message result = []
                    then result\<lparr>message := msg_unreachable, category := ''smtp_timeout''\<rparr>
                    else result))"
| "probe_hosts socks addr i (mxHost # rest) result =
     (case checkSmtpServer (socks i) mxHost addr of
        Resolved smtpResult \<Rightarrow>
          if isValid smtpResult
          then ([mxHost],
                Resolved (result\<lparr>isValid := True, message := msg_exists, category := ''valid'',
                                  smtpServer := Some mxHost\<rparr>))
          else (case probe_hosts socks addr (Suc i) rest
                       (result\<lparr>message := message smtpResult,
                               category := (if category smtpResult = [] then ''smtp_error''
                                            else category smtpResult),
                               smtpServer := Some mxHost\<rparr>) of
                  (probed, outcome) \<Rightarrow> (mxHost # probed, outcome))
      | Rejected err \<Rightarrow>
          (case probe_hosts socks addr (Suc i) rest result of
             (probed, outcome) \<Rightarrow> (mxHost # probed, outcome))
      | Pending \<Rightarrow> ([mxHost], Pending))"

definition verifyEmail_run :: "network \<Rightarrow> string \<Rightarrow> string list \<times> verdict promise" where
  "verifyEmail_run net addr =
     (let result = \<lparr>isValid = False, message = [], category = ''invalid'', email = addr,
                     mxRecords = None, smtpServer = None\<rparr>
      in if \<not> isValidFormat addr
         then ([], Resolved (result\<lparr>message := msg_invalid_format,
                                     category := ''invalid_format''\<rparr>))
         else (case getMxRecords (resolveMx net) (domain_of addr) of
                 Resolved mx \<Rightarrow>
                   if mx = []
                   then ([], Resolved (result\<lparr>message := msg_no_mx,
                                               category := ''no_mx_records''\<rparr>))
                   else probe_hosts (sockets net) addr 0 mx (result\<lparr>mxRecords := Some mx\<rparr>)
               | Rejected err \<Rightarrow>
                   ([], Resolved (result\<lparr>message := msg_dns_error, category := ''dns_error''\<rparr>))
               | Pending \<Rightarrow> ([], Pending)))"

definition verifyEmail :: "network \<Rightarrow> string \<Rightarrow> verdict promise" where
  "verifyEmail net addr = snd (verifyEmail_run net addr)"

section \<open>The statistics of \<open>analyzeResults\<close>\<close>

text \<open>
  \<open>stats.categories\<close> and \<open>stats.domains\<close> are plain object literals, so a key that names
  a member of \<open>Object.prototype\<close> is found by a property read although the object has no
  such entry of its own. All these inherited members are functions or objects, hence truthy.
\<close>

definition object_prototype_keys :: "string list" where
  "object_prototype_keys =
     [''constructor'', ''__defineGetter__'', ''__defineSetter__'', ''hasOwnProperty'',
      ''__lookupGetter__'', ''__lookupSetter__'', ''isPrototypeOf'',
      ''propertyIsEnumerable'', ''toString'', ''valueOf'', ''__proto__'',
      ''toLocaleString'']"

text \<open>A value stored under a key of \<open>stats.categories\<close>: a count, or the string that
  \<open>(f || 0) + 1\<close> yields when \<open>f\<close> is an inherited function or such a string.\<close>

datatype jsval = Num nat | NonNumeric

record domain_stat =
  total :: nat
  valid :: nat
  invalid :: nat

text \<open>The aggregate has the fields \<open>total\<close>, \<open>valid\<close>, \<open>invalid\<close> as well, followed by
  the two tables, kept in insertion order. (\<open>topDomains\<close> is derived from \<open>domains\<close> after
  the fold and is not part of this model.)\<close>

record aggregate = domain_stat +
  categories :: "(string \<times> jsval) list"
  domains :: "(string \<times> unit domain_stat_scheme) list"

definition initial_categories :: "(string \<times> jsval) list" where
  "initial_categories =
     [(''valid'', Num 0), (''invalid_format'', Num 0), (''no_mx_records'', Num 0),
      (''dns_error'', Num 0), (''not_existing'', Num 0), (''smtp_timeout'', Num 0),
      (''smtp_error'', Num 0), (''connection_error'', Num 0), (''mailbox_error'', Num 0),
      (''temporary_error'', Num 0)]"

text \<open>\<open>stats.categories.valid++\<close>\<close>

definition incr_valid_category :: "(string \<times> jsval) list \<Rightarrow> (string \<times> jsval) list" where
  "incr_valid_category cats =
     AList.update ''valid''
       (case map_of cats ''valid'' of Some (Num n) \<Rightarrow> Num (n + 1) | _ \<Rightarrow> NonNumeric) cats"

text \<open>\<open>stats.categories[c] = (stats.categories[c] || 0) + 1\<close>. The assignment to
  \<open>__proto__\<close> of a string is ignored by that accessor.\<close>

definition incr_category :: "string \<Rightarrow> (string \<times> jsval) list \<Rightarrow> (string \<times> jsval) list" where
  "incr_category c cats =
     (case map_of cats c of
        Some (Num n) \<Rightarrow> AList.update c (Num (n + 1)) cats
      | Some NonNumeric \<Rightarrow> AList.update c NonNumeric cats
      | None \<Rightarrow>
          if c = ''__proto__'' then cats
          else if c \<in> set object_prototype_keys then AList.update c NonNumeric cats
          else AList.update c (Num 1) cats)"

text \<open>The per-domain part of the loop body, for the domain \<open>d\<close>. When \<open>d\<close> names an
  inherited member, \<open>!stats.domains[d]\<close> is false and the increments land on that
  member, not on an entry of \<open>stats.domains\<close>.\<close>

definition incr_domain ::
  "bool \<Rightarrow> string \<Rightarrow> (string \<times> unit domain_stat_scheme) list
     \<Rightarrow> (string \<times> unit domain_stat_scheme) list" where
  "incr_domain ok d doms =
     (if map_of doms d = None \<and> d \<in> set object_prototype_keys then doms
      else
        let s0 = (case map_of doms d of
                    None \<Rightarrow> \<lparr>total = 0, valid = 0, invalid = 0\<rparr>
                  | Some s \<Rightarrow> s);
            s1 = s0\<lparr>total := total s0 + 1\<rparr>;
            s2 = (if ok then s1\<lparr>valid := valid s1 + 1\<rparr> else s1\<lparr>invalid := invalid s1 + 1\<rparr>)
        in AList.update d s2 doms)"

text \<open>The body of \<open>results.forEach\<close>.\<close>

definition add_result :: "aggregate \<Rightarrow> verdict \<Rightarrow> aggregate" where
  "add_result st r =
     (let st1 = (if isValid r
                 then st\<lparr>valid := valid st + 1,
                         categories := incr_valid_category (categories st)\<rparr>
                 else st\<lparr>invalid := invalid st + 1,
                         categories := incr_category (category r) (categories st)\<rparr>)
      in if CHR ''@'' \<in> set (email r)
         then (case domain_of (email r) of
                 Some d \<Rightarrow> st1\<lparr>domains := incr_domain (isValid r) d (domains st1)\<rparr>
               | None \<Rightarrow> st1)
         else st1)"

definition initial_stats :: "nat \<Rightarrow> aggregate" where
  "initial_stats n =
     \<lparr>total = n, valid = 0, invalid = 0,
      categories = initial_categories, domains = []\<rparr>"

definition analyzeResults :: "verdict list \<Rightarrow> aggregate" where
  "analyzeResults rs = foldl add_result (initial_stats (length rs)) rs"

text \<open>The sum of the entries of a categories table, provided every entry is a number.\<close>

fun categories_sum :: "(string \<times> jsval) list \<Rightarrow> nat option" where
  "categories_sum [] = Some 0"
| "categories_sum ((k, Num n) # kvs) = map_option (\<lambda>m. n + m) (categories_sum kvs)"
| "categories_sum ((k, NonNumeric) # kvs) = None"

section \<open>Batches: \<open>processBatch\<close>\<close>

definition concurrentLimit :: nat where
  "concurrentLimit = 5"

text \<open>The calls of the two callbacks, in the order they are made.\<close>

datatype callback = OnProgress nat nat verdict | OnStatsUpdate aggregate

text \<open>The variables \<open>results\<close> and \<open>completed\<close> of \<open>processBatch\<close>, and the calls made.\<close>

record batch_state =
  results :: "verdict list"
  completed :: nat
  calls :: "callback list"

definition errorResult :: "string \<Rightarrow> string \<Rightarrow> verdict" where
  "errorResult addr err =
     \<lparr>isValid = False, message = msg_processing_error @ err, category = ''processing_error'',
      email = addr, mxRecords = None, smtpServer = None\<rparr>"

text \<open>
  The rest of one promise of a group, run when \<open>verifyEmail\<close> has settled with \<open>outcome\<close>.
  \<open>onProgress\<close> and \<open>onStatsUpdate\<close> say whether the callback was passed; a callback
  records its arguments and returns.
\<close>

definition settle_one ::
  "bool \<Rightarrow> bool \<Rightarrow> nat \<Rightarrow> string \<Rightarrow> verdict promise \<Rightarrow> batch_state \<Rightarrow> batch_state" where
  "settle_one onProgress onStatsUpdate n addr outcome b =
     (case outcome of
        Resolved result \<Rightarrow>
          let b1 = b\<lparr>completed := completed b + 1\<rparr>;
              b2 = (if onProgress
                    then b1\<lparr>calls := calls b1 @ [OnProgress (completed b1) n result]\<rparr>
                    else b1)
          in if completed b2 mod 100 = 0 \<and> onStatsUpdate
             then b2\<lparr>calls := calls b2 @ [OnStatsUpdate (analyzeResults (results b2))]\<rparr>
             else b2
      | Rejected err \<Rightarrow>
          let b1 = b\<lparr>completed := completed b + 1\<rparr>
          in if onProgress
             then b1\<lparr>calls := calls b1 @ [OnProgress (completed b1) n (errorResult addr err)]\<rparr>
             else b1
      | Pending \<Rightarrow> b)"

text \<open>The value a promise of the group is fulfilled with.\<close>

definition group_value :: "string \<Rightarrow> verdict promise \<Rightarrow> verdict option" where
  "group_value addr outcome =
     (case outcome of
        Resolved result \<Rightarrow> Some result
      | Rejected err \<Rightarrow> Some (errorResult addr err)
      | Pending \<Rightarrow> None)"

text \<open>
  \<open>processGroup\<close>: the addresses of a group, each with its index in the batch, are verified
  concurrently. \<open>verify i addr\<close> is how \<open>verifyEmail\<close> ends for the \<open>i\<close>-th address and
  \<open>latency i\<close> the time it takes; the promises continue in the order of these times, equal
  times in input order. \<open>Promise.all\<close> yields the values in input order, once all have
  settled.
\<close>

definition processGroup ::
  "bool \<Rightarrow> bool \<Rightarrow> (nat \<Rightarrow> string \<Rightarrow> verdict promise) \<Rightarrow> (nat \<Rightarrow> nat) \<Rightarrow> nat
     \<Rightarrow> (nat \<times> string) list \<Rightarrow> batch_state \<Rightarrow> batch_state \<times> verdict list option" where
  "processGroup onProgress onStatsUpdate verify latency n grp b =
     (let order = sort_key (\<lambda>(i, addr). latency i) grp;
          b1 = foldl (\<lambda>s (i, addr). settle_one onProgress onStatsUpdate n addr (verify i addr) s)
                 b order;
          vals = map (\<lambda>(i, addr). group_value addr (verify i addr)) grp
      in (b1, if list_all (\<lambda>v. v \<noteq> None) vals then Some (map the vals) else None))"

text \<open>The batch is cut into consecutive groups of \<open>concurrentLimit\<close> addresses.\<close>

function split_groups :: "'a list \<Rightarrow> 'a list list" where
  "split_groups xs =
     (if xs = [] then [] else take concurrentLimit xs # split_groups (drop concurrentLimit xs))"
  by pat_completeness auto
termination
  by (relation "measure length") (auto simp: concurrentLimit_def)

declare split_groups.simps [simp del]

text \<open>The groups are processed one after the other, each appended to \<open>results\<close> when all
  its promises have settled. The flag says whether the loop came to its end.\<close>

fun process_groups ::
  "bool \<Rightarrow> bool \<Rightarrow> (nat \<Rightarrow> string \<Rightarrow> verdict promise) \<Rightarrow> (nat \<Rightarrow> nat) \<Rightarrow> nat
     \<Rightarrow> (nat \<times> string) list list \<Rightarrow> batch_state \<Rightarrow> batch_state \<times> bool" where
  "process_groups onProgress onStatsUpdate verify latency n [] b = (b, True)"
| "process_groups onProgress onStatsUpdate verify latency n (grp # grps) b =
     (case processGroup onProgress onStatsUpdate verify latency n grp b of
        (b1, Some groupResults) \<Rightarrow>
          process_groups onProgress onStatsUpdate verify latency n grps
            (b1\<lparr>results := results b1 @ groupResults\<rparr>)
      | (b1, None) \<Rightarrow> (b1, False))"

text \<open>
  \<open>processBatch\<close> returns the calls made to the callbacks and, when the batch comes to its
  end, \<open>results\<close> and \<open>statistics\<close>.
\<close>

definition processBatch ::
  "bool \<Rightarrow> bool \<Rightarrow> (nat \<Rightarrow> string \<Rightarrow> verdict promise) \<Rightarrow> (nat \<Rightarrow> nat) \<Rightarrow> string list
     \<Rightarrow> callback list \<times> (verdict list \<times> aggregate) promise" where
  "processBatch onProgress onStatsUpdate verify latency emails =
     (case process_groups onProgress onStatsUpdate verify latency (length emails)
             (split_groups (enumerate 0 emails)) \<lparr>results = [], completed = 0, calls = []\<rparr> of
        (b, True) \<Rightarrow>
          let finalStats = analyzeResults (results b)
          in (calls b @ (if onStatsUpdate then [OnStatsUpdate finalStats] else []),
              Resolved (results b, finalStats))
      | (b, False) \<Rightarrow> (calls b, Pending))"

section \<open>Notions used in the statements\<close>

subsection \<open>Statistics\<close>

text \<open>The category under which the loop of \<open>analyzeResults\<close> counts a verdict, and the
  domain under which it counts it, if any.\<close>

definition counted_as :: "verdict \<Rightarrow> string" where
  "counted_as r = (if isValid r then ''valid'' else category r)"

definition counted_domain :: "verdict \<Rightarrow> string option" where
  "counted_domain r =
     (if CHR ''@'' \<in> set (email r)
      then (case domain_of (email r) of
              Some d \<Rightarrow> if d \<in> set object_prototype_keys then None else Some d
            | None \<Rightarrow> None)
      else None)"

text \<open>How many verdicts of a sequence have the category \<open>c\<close>.\<close>

definition observed :: "string \<Rightarrow> verdict list \<Rightarrow> nat" where
  "observed c rs = length (filter (\<lambda>r. category r = c) rs)"

text \<open>The count of a category and the total of a domain in a table of an aggregate, zero
  for a key that is absent.\<close>

definition category_count :: "(string \<times> jsval) list \<Rightarrow> string \<Rightarrow> nat" where
  "category_count cats c = (case map_of cats c of Some (Num n) \<Rightarrow> n | _ \<Rightarrow> 0)"

definition domain_total :: "(string \<times> unit domain_stat_scheme) list \<Rightarrow> string \<Rightarrow> nat" where
  "domain_total doms d = (case map_of doms d of Some s \<Rightarrow> total s | None \<Rightarrow> 0)"

text \<open>The closed set of categories, as the specification lists it, and the keys the
  object literal of \<open>analyzeResults\<close> starts with.\<close>

definition closed_categories :: "string list" where
  "closed_categories =
     [''valid'', ''invalid_format'', ''no_mx_records'', ''dns_error'', ''not_existing'',
      ''mailbox_error'', ''temporary_error'', ''smtp_error'', ''smtp_timeout'',
      ''connection_error'', ''processing_error'']"

definition literal_categories :: "string list" where
  "literal_categories = map fst initial_categories"

text \<open>The part of the loop body of \<open>analyzeResults\<close> that changes the categories table,
  and the entry the table has for the key \<open>c\<close> after \<open>k\<close> verdicts were counted under \<open>c\<close>.\<close>

definition category_step :: "(string \<times> jsval) list \<Rightarrow> verdict \<Rightarrow> (string \<times> jsval) list" where
  "category_step cats r =
     (if isValid r then incr_valid_category cats else incr_category (category r) cats)"

definition expected_entry :: "string \<Rightarrow> nat \<Rightarrow> jsval option" where
  "expected_entry c k =
     (if c \<in> set object_prototype_keys
      then (if c \<noteq> ''__proto__'' \<and> 0 < k then Some NonNumeric else None)
      else (if c \<in> set literal_categories \<or> 0 < k then Some (Num k) else None))"

text \<open>Invariants of the loop of \<open>analyzeResults\<close>: the entries of the categories table are
  numbers that add up to \<open>n\<close>, and \<open>valid\<close> is among the keys; every entry of the domains
  table has \<open>valid + invalid = total\<close>; no entry of the domains table is named like a member
  of \<open>Object.prototype\<close>.\<close>

definition cats_ok :: "nat \<Rightarrow> (string \<times> jsval) list \<Rightarrow> bool" where
  "cats_ok n cats \<longleftrightarrow> categories_sum cats = Some n \<and> ''valid'' \<in> fst ` set cats"

definition doms_ok :: "(string \<times> unit domain_stat_scheme) list \<Rightarrow> bool" where
  "doms_ok doms \<longleftrightarrow> (\<forall>(d, s)\<in>set doms. valid s + invalid s = total s)"

definition doms_own :: "(string \<times> unit domain_stat_scheme) list \<Rightarrow> bool" where
  "doms_own doms \<longleftrightarrow> list_all (\<lambda>k. map_of doms k = None) object_prototype_keys"

subsection \<open>Batches\<close>

text \<open>The verdicts of the addresses of a batch in input order: what \<open>verifyEmail\<close> resolved
  with, or the \<open>processing_error\<close> verdict made from its rejection.\<close>

definition batch_verdicts :: "(nat \<Rightarrow> string \<Rightarrow> verdict promise) \<Rightarrow> string list \<Rightarrow> verdict list" where
  "batch_verdicts verify emails =
     map (\<lambda>(i, addr). the (group_value addr (verify i addr))) (enumerate 0 emails)"

text \<open>Whether the verification of some address never settles.\<close>

definition some_pending :: "(nat \<Rightarrow> string \<Rightarrow> verdict promise) \<Rightarrow> (nat \<times> string) list \<Rightarrow> bool" where
  "some_pending verify grp = list_ex (\<lambda>(i, addr). verify i addr = Pending) grp"

subsection \<open>Probes\<close>

text \<open>The categories a probe can resolve with, and what every result of a probe
  satisfies.\<close>

definition probe_categories :: "string list" where
  "probe_categories =
     [''valid'', ''not_existing'', ''mailbox_error'', ''temporary_error'', ''smtp_error'',
      ''smtp_timeout'', ''connection_error'']"

definition probe_result_ok :: "smtp_result \<Rightarrow> bool" where
  "probe_result_ok s \<longleftrightarrow>
     message s \<noteq> [] \<and> category s \<in> set probe_categories
     \<and> (isValid s \<longleftrightarrow> category s = ''valid'')"

text \<open>Whatever a probe has settled with is such a result.\<close>

definition settled_ok :: "probe \<Rightarrow> bool" where
  "settled_ok p \<longleftrightarrow> (case settled p of None \<Rightarrow> True | Some r \<Rightarrow> probe_result_ok r)"

text \<open>A probe that resolved with a result that is not valid.\<close>

definition refused :: "smtp_result promise \<Rightarrow> bool" where
  "refused outcome = (case outcome of Resolved s \<Rightarrow> \<not> isValid s | _ \<Rightarrow> False)"

text \<open>Whether the data handler returns at a line.\<close>

definition settles :: "line_action \<Rightarrow> bool" where
  "settles a = (case a of Settle r \<Rightarrow> True | _ \<Rightarrow> False)"

subsection \<open>The rule of the format check in the words of the specification\<close>

text \<open>
  A local part that starts with an alphanumeric character, followed by up to 63 characters
  of \<open>A-Za-z0-9._%+-\<close>; then \<open>@\<close>; then a domain that starts with an alphanumeric
  character, followed by up to 253 characters of \<open>A-Za-z0-9.-\<close>; then a dot and an
  alphabetic top-level domain of at least two characters.
\<close>

definition char_between :: "char \<Rightarrow> char \<Rightarrow> char \<Rightarrow> bool" where
  "char_between lo hi c \<longleftrightarrow> (of_char lo :: nat) \<le> of_char c \<and> (of_char c :: nat) \<le> of_char hi"

definition alphabetic :: "char \<Rightarrow> bool" where
  "alphabetic c \<longleftrightarrow> char_between (CHR ''A'') (CHR ''Z'') c \<or> char_between (CHR ''a'') (CHR ''z'') c"

definition alphanumeric :: "char \<Rightarrow> bool" where
  "alphanumeric c \<longleftrightarrow> alphabetic c \<or> char_between (CHR ''0'') (CHR ''9'') c"

definition local_char :: "char \<Rightarrow> bool" where
  "local_char c \<longleftrightarrow> alphanumeric c \<or> c \<in> set ''._%+-''"

definition domain_char :: "char \<Rightarrow> bool" where
  "domain_char c \<longleftrightarrow> alphanumeric c \<or> c \<in> set ''.-''"

definition spec_local :: "string \<Rightarrow> bool" where
  "spec_local l \<longleftrightarrow> l \<noteq> [] \<and> alphanumeric (hd l) \<and> length (tl l) \<le> 63 \<and> list_all local_char (tl l)"

definition spec_domain :: "string \<Rightarrow> bool" where
  "spec_domain d \<longleftrightarrow> d \<noteq> [] \<and> alphanumeric (hd d) \<and> length (tl d) \<le> 253 \<and> list_all domain_char (tl d)"

definition spec_tld :: "string \<Rightarrow> bool" where
  "spec_tld t \<longleftrightarrow> 2 \<le> length t \<and> list_all alphabetic t"

definition spec_format :: "string \<Rightarrow> bool" where
  "spec_format addr \<longleftrightarrow>
     (\<exists>l d t. addr = l @ ''@'' @ d @ ''.'' @ t \<and> spec_local l \<and> spec_domain d \<and> spec_tld t)"

subsection \<open>Examples\<close>

definition crlf :: string where
  "crlf = [CHR 0x0D, CHR 0x0A]"

text \<open>
  A network in which \<open>ex.com\<close> has two exchangers; the one of priority 10 refuses the
  connection and the one of priority 20 accepts the recipient. The lookup for
  \<open>slow.example\<close> times out, every other lookup finds no such domain.
\<close>

definition example_net :: network where
  "example_net =
     \<lparr>resolveMx =
        (\<lambda>d. if d = ''ex.com''
             then DnsReply None (Some [\<lparr>exchange = ''mx2.ex.com'', priority = 20\<rparr>,
                                       \<lparr>exchange = ''mx1.ex.com'', priority = 10\<rparr>])
             else if d = ''slow.example'' then DnsReply (Some ''ETIMEOUT'') None
             else DnsReply (Some ''ENOTFOUND'') None),
      sockets =
        (\<lambda>i. if i = 0 then [Connect, SocketError ''connect ECONNREFUSED'']
             else [Connect, Data (''220 mx2.ex.com ESMTP'' @ crlf),
                   Data (''250 HELO ok'' @ crlf), Data (''250 MAIL ok'' @ crlf),
                   Data (''250 RCPT ok'' @ crlf)])\<rparr>"

text \<open>A network in which the first exchanger of \<open>ex.com\<close> answers \<open>RCPT TO\<close> with 550
  and the second refuses the connection.\<close>

definition refusing_net :: network where
  "refusing_net =
     \<lparr>resolveMx = resolveMx example_net,
      sockets =
        (\<lambda>i. if i = 0
             then [Connect, Data (''220 mx1.ex.com ESMTP'' @ crlf),
                   Data (''250 HELO ok'' @ crlf), Data (''250 MAIL ok'' @ crlf),
                   Data (''550 5.1.1 User unknown'' @ crlf)]
             else [Connect, SocketError ''connect ECONNREFUSED''])\<rparr>"

text \<open>A network in which the only exchanger of a domain greets and then closes the
  connection.\<close>

definition closing_net :: network where
  "closing_net =
     \<lparr>resolveMx = (\<lambda>d. DnsReply None (Some [\<lparr>exchange = ''mx.ex.com'', priority = 10\<rparr>])),
      sockets = (\<lambda>i. [Connect, Data (''220 mx.ex.com ESMTP'' @ crlf), End])\<rparr>"

text \<open>The events of a probe up to the reply to \<open>MAIL FROM\<close>, and the probe for \<open>a@ex.com\<close>
  after them: \<open>RCPT TO\<close> has been sent.\<close>

definition greeted :: "socket_event list" where
  "greeted =
     [Connect, Data (''220 mx.ex.com ESMTP'' @ crlf), Data (''250 HELO ok'' @ crlf),
      Data (''250 MAIL ok'' @ crlf)]"

definition awaiting_rcpt :: probe where
  "awaiting_rcpt = foldl (on_event ''a@ex.com'') initial_probe greeted"

text \<open>A batch of seven addresses, the verdict of \<open>verifyEmail\<close> for the address \<open>x\<close>, and
  three verdicts as \<open>verifyEmail\<close> produces them.\<close>

definition example_batch :: "string list" where
  "example_batch =
     [''a@ex.com'', ''bad@@example.com'', ''user@no-such-domain-xyz.invalid'', ''x'',
      ''b@ex.com'', ''user@slow.example'', ''c@ex.com'']"

definition verdict_x :: verdict where
  "verdict_x =
     \<lparr>isValid = False, message = msg_invalid_format, category = ''invalid_format'',
      email = ''x'', mxRecords = None, smtpServer = None\<rparr>"

definition example_results :: "verdict list" where
  "example_results =
     [\<lparr>isValid = True, message = msg_exists, category = ''valid'', email = ''ann@ex.com'',
       mxRecords = Some [''mx.ex.com''], smtpServer = Some ''mx.ex.com''\<rparr>,
      \<lparr>isValid = False, message = msg_not_existing, category = ''not_existing'',
       email = ''bob@ex.com'', mxRecords = Some [''mx.ex.com''],
       smtpServer = Some ''mx.ex.com''\<rparr>,
      \<lparr>isValid = False, message = msg_invalid_format, category = ''invalid_format'',
       email = ''x'', mxRecords = None, smtpServer = None\<rparr>]"

text \<open>The three verdicts above, followed by two verdicts whose categories are names of
  members of \<open>Object.prototype\<close>.\<close>

definition odd_results :: "verdict list" where
  "odd_results =
     example_results @
     [\<lparr>isValid = False, message = ''?'', category = ''toString'', email = ''y'',
       mxRecords = None, smtpServer = None\<rparr>,
      \<lparr>isValid = False, message = ''?'', category = ''__proto__'', email = ''z'',
       mxRecords = None, smtpServer = None\<rparr>]"

section \<open>The sums of an aggregate\<close>

lemma add_result_total: "total (add_result st r) = total st"
  by (simp add: add_result_def Let_def split: option.splits)

lemma add_result_valid_invalid:
  "valid (add_result st r) + invalid (add_result st r) = Suc (valid st + invalid st)"
  by (simp add: add_result_def Let_def split: option.splits)

lemma foldl_add_result_total: "total (foldl add_result st rs) = total st"
  by (induction rs arbitrary: st) (simp_all add: add_result_total)

lemma foldl_add_result_valid_invalid:
  "valid (foldl add_result st rs) + invalid (foldl add_result st rs)
     = valid st + invalid st + length rs"
  by (induction rs arbitrary: st) (simp_all add: add_result_valid_invalid)

lemma categories_sum_numeric:
  "categories_sum cats = Some s \<Longrightarrow> map_of cats k \<noteq> Some NonNumeric"
proof (induction cats arbitrary: s rule: categories_sum.induct)
  case 1 then show ?case by simp
next
  case (2 k' n kvs) then show ?case by (cases "categories_sum kvs") auto
next
  case (3 k' kvs) then show ?case by simp
qed

lemma categories_sum_update_Some:
  "categories_sum cats = Some s \<Longrightarrow> map_of cats k = Some (Num n)
     \<Longrightarrow> categories_sum (AList.update k (Num (Suc n)) cats) = Some (Suc s)"
proof (induction cats arbitrary: s rule: categories_sum.induct)
  case 1 then show ?case by simp
next
  case (2 k' m kvs) then show ?case by (cases "categories_sum kvs") (auto split: if_splits)
next
  case (3 k' kvs) then show ?case by simp
qed

lemma categories_sum_update_None:
  "categories_sum cats = Some s \<Longrightarrow> map_of cats k = None
     \<Longrightarrow> categories_sum (AList.update k (Num (Suc 0)) cats) = Some (Suc s)"
proof (induction cats arbitrary: s rule: categories_sum.induct)
  case 1 then show ?case by simp
next
  case (2 k' m kvs) then show ?case by (cases "categories_sum kvs") (auto split: if_splits)
next
  case (3 k' kvs) then show ?case by simp
qed

lemma categories_sum_incr_category:
  assumes "categories_sum cats = Some s" "c \<notin> set object_prototype_keys"
  shows "categories_sum (incr_category c cats) = Some (Suc s)"
proof (cases "map_of cats c")
  case None
  moreover have "c \<noteq> ''__proto__''" using assms(2) by (auto simp: object_prototype_keys_def)
  ultimately show ?thesis using assms
    by (simp add: incr_category_def categories_sum_update_None)
next
  case (Some v)
  then obtain n where "v = Num n"
    using categories_sum_numeric[OF assms(1), of c] by (cases v) auto
  then show ?thesis using Some assms(1)
    by (simp add: incr_category_def categories_sum_update_Some)
qed

lemma categories_sum_incr_valid:
  assumes "categories_sum cats = Some s" "''valid'' \<in> fst ` set cats"
  shows "categories_sum (incr_valid_category cats) = Some (Suc s)"
proof -
  from assms(2) obtain v where v: "map_of cats ''valid'' = Some v"
    by (cases "map_of cats ''valid''") (auto simp: map_of_eq_None_iff)
  then obtain n where "v = Num n"
    using categories_sum_numeric[OF assms(1), of "''valid''"] by (cases v) auto
  then show ?thesis using v assms(1)
    by (simp add: incr_valid_category_def categories_sum_update_Some)
qed

lemma incr_category_keys: "fst ` set cats \<subseteq> fst ` set (incr_category c cats)"
  by (auto simp: incr_category_def AList.dom_update split: option.splits jsval.splits)

lemma incr_valid_category_keys: "fst ` set cats \<subseteq> fst ` set (incr_valid_category cats)"
  by (auto simp: incr_valid_category_def AList.dom_update)

lemma add_result_categories:
  "categories (add_result st r) =
     (if isValid r then incr_valid_category (categories st)
      else incr_category (category r) (categories st))"
  by (simp add: add_result_def Let_def split: option.splits)

lemma add_result_cats_ok:
  assumes "cats_ok n (categories st)" "\<not> isValid r \<longrightarrow> category r \<notin> set object_prototype_keys"
  shows "cats_ok (Suc n) (categories (add_result st r))"
proof (cases "isValid r")
  case True
  then show ?thesis using assms(1) incr_valid_category_keys[of "categories st"]
    by (auto simp: cats_ok_def add_result_categories categories_sum_incr_valid)
next
  case False
  then show ?thesis using assms incr_category_keys[of "categories st" "category r"]
    by (auto simp: cats_ok_def add_result_categories categories_sum_incr_category)
qed

lemma foldl_add_result_cats_ok:
  assumes "cats_ok n (categories st)"
    "\<forall>r\<in>set rs. \<not> isValid r \<longrightarrow> category r \<notin> set object_prototype_keys"
  shows "cats_ok (n + length rs) (categories (foldl add_result st rs))"
  using assms
proof (induction rs arbitrary: st n)
  case Nil then show ?case by simp
next
  case (Cons r rs)
  have "cats_ok (Suc n) (categories (add_result st r))"
    using Cons.prems by (intro add_result_cats_ok) auto
  from Cons.IH[OF this] Cons.prems(2) show ?case by simp
qed

lemma initial_cats_ok: "cats_ok 0 (categories (initial_stats n))"
  by (simp add: cats_ok_def initial_stats_def initial_categories_def)

lemma set_update_subset: "set (AList.update k v al) \<subseteq> insert (k, v) (set al)"
  by (induction al) auto

lemma incr_domain_ok:
  assumes "doms_ok doms"
  shows "doms_ok (incr_domain ok d doms)"
proof (cases "map_of doms d")
  case None
  then show ?thesis using assms set_update_subset[of d _ doms]
    by (fastforce simp: incr_domain_def doms_ok_def Let_def)
next
  case (Some s)
  then have "(d, s) \<in> set doms" by (rule map_of_SomeD)
  then have "valid s + invalid s = total s" using assms by (auto simp: doms_ok_def)
  then show ?thesis using Some assms set_update_subset[of d _ doms]
    by (fastforce simp: incr_domain_def doms_ok_def Let_def)
qed

lemma add_result_doms_ok: "doms_ok (domains st) \<Longrightarrow> doms_ok (domains (add_result st r))"
  by (simp add: add_result_def Let_def incr_domain_ok split: option.splits)

lemma foldl_add_result_doms_ok:
  "doms_ok (domains st) \<Longrightarrow> doms_ok (domains (foldl add_result st rs))"
  by (induction rs arbitrary: st) (simp_all add: add_result_doms_ok)

text \<open>
  C7. For every sequence of verdicts whose categories (of the verdicts that are not valid)
  are not names of members of \<open>Object.prototype\<close>, as is the case for every category the
  program produces, the aggregate \<open>A\<close> of \<open>analyzeResults\<close> has
  \<open>A.valid + A.invalid = A.total\<close>, the entries of \<open>A.categories\<close> are numbers that add up to
  \<open>A.total\<close>, and every entry \<open>D\<close> of \<open>A.domains\<close> has \<open>D.valid + D.invalid = D.total\<close>.
\<close>

theorem analyzeResults_sums:
  assumes "\<forall>r\<in>set rs. \<not> isValid r \<longrightarrow> category r \<notin> set object_prototype_keys"
  shows "valid (analyzeResults rs) + invalid (analyzeResults rs) = total (analyzeResults rs)
       \<and> categories_sum (categories (analyzeResults rs)) = Some (total (analyzeResults rs))
       \<and> (\<forall>(d, s)\<in>set (domains (analyzeResults rs)). valid s + invalid s = total s)"
proof -
  have t: "total (analyzeResults rs) = length rs"
    by (simp add: analyzeResults_def foldl_add_result_total initial_stats_def)
  have "valid (analyzeResults rs) + invalid (analyzeResults rs) = length rs"
    using foldl_add_result_valid_invalid[of "initial_stats (length rs)" rs]
    by (simp add: analyzeResults_def initial_stats_def)
  moreover have "cats_ok (0 + length rs) (categories (analyzeResults rs))"
    unfolding analyzeResults_def by (rule foldl_add_result_cats_ok[OF initial_cats_ok assms])
  moreover have "doms_ok (domains (analyzeResults rs))"
    unfolding analyzeResults_def
    by (rule foldl_add_result_doms_ok) (simp add: doms_ok_def initial_stats_def)
  ultimately show ?thesis using t by (simp add: cats_ok_def doms_ok_def)
qed

theorem analyzeResults_sums_witness:
  "list_all (\<lambda>r. isValid r \<or> category r \<notin> set object_prototype_keys) example_results
   \<and> valid (analyzeResults example_results) + invalid (analyzeResults example_results)
       = total (analyzeResults example_results)
   \<and> categories_sum (categories (analyzeResults example_results)) = Some 3
   \<and> list_all (\<lambda>(d, s). valid s + invalid s = total s)
         (domains (analyzeResults example_results))"
proof -
  have h: "\<forall>r\<in>set example_results. \<not> isValid r \<longrightarrow> category r \<notin> set object_prototype_keys"
    by (simp add: example_results_def object_prototype_keys_def)
  have "total (analyzeResults example_results) = length example_results"
    by (simp add: analyzeResults_def foldl_add_result_total initial_stats_def)
  then have t: "total (analyzeResults example_results) = 3"
    by (simp add: example_results_def)
  from analyzeResults_sums[OF h] h t show ?thesis
    by (auto simp: list_all_iff)
qed

section \<open>The categories table\<close>

lemma cats_ok_lookup:
  assumes "cats_ok n cats"
  shows "map_of cats c = None \<or> (\<exists>m. map_of cats c = Some (Num m))"
proof (cases "map_of cats c")
  case None then show ?thesis by simp
next
  case (Some v)
  then show ?thesis
    using categories_sum_numeric[of cats n c] assms by (cases v) (auto simp: cats_ok_def)
qed

lemma cats_ok_valid:
  assumes "cats_ok n cats"
  shows "\<exists>m. map_of cats ''valid'' = Some (Num m)"
proof -
  have "map_of cats ''valid'' \<noteq> None"
    using assms by (simp add: cats_ok_def map_of_eq_None_iff)
  then show ?thesis using cats_ok_lookup[OF assms, of "''valid''"] by auto
qed

lemma add_result_category_lookup:
  assumes "cats_ok n (categories st)" "\<not> isValid r \<longrightarrow> category r \<notin> set object_prototype_keys"
  shows "map_of (categories (add_result st r)) c =
           (if c = counted_as r then Some (Num (Suc (category_count (categories st) c)))
            else map_of (categories st) c)"
proof (cases "isValid r")
  case True
  obtain m where "map_of (categories st) ''valid'' = Some (Num m)"
    using cats_ok_valid[OF assms(1)] by auto
  then show ?thesis using True
    by (simp add: add_result_categories incr_valid_category_def counted_as_def category_count_def
          AList.update_conv')
next
  case False
  then have np: "category r \<notin> set object_prototype_keys" using assms(2) by simp
  then have "category r \<noteq> ''__proto__''" by (auto simp: object_prototype_keys_def)
  then show ?thesis using False np cats_ok_lookup[OF assms(1), of "category r"]
    by (auto simp: add_result_categories incr_category_def counted_as_def category_count_def
          AList.update_conv')
qed

lemma foldl_add_result_category_lookup:
  assumes "cats_ok n (categories st)"
    "\<forall>r\<in>set rs. \<not> isValid r \<longrightarrow> category r \<notin> set object_prototype_keys"
  shows "map_of (categories (foldl add_result st rs)) c =
           (if length (filter (\<lambda>r. counted_as r = c) rs) = 0 then map_of (categories st) c
            else Some (Num (category_count (categories st) c + length (filter (\<lambda>r. counted_as r = c) rs))))"
  using assms
proof (induction rs arbitrary: st n)
  case Nil then show ?case by simp
next
  case (Cons r rs)
  have ok: "cats_ok (Suc n) (categories (add_result st r))"
    using Cons.prems by (intro add_result_cats_ok) auto
  have step: "map_of (categories (add_result st r)) c =
           (if c = counted_as r then Some (Num (Suc (category_count (categories st) c)))
            else map_of (categories st) c)"
    using Cons.prems by (intro add_result_category_lookup) auto
  have IH: "map_of (categories (foldl add_result (add_result st r) rs)) c =
           (if length (filter (\<lambda>r. counted_as r = c) rs) = 0
            then map_of (categories (add_result st r)) c
            else Some (Num (category_count (categories (add_result st r)) c
                            + length (filter (\<lambda>r. counted_as r = c) rs))))"
    using Cons.IH[OF ok] Cons.prems(2) by simp
  show ?case using IH step by (auto simp: category_count_def)
qed

lemma map_of_initial_categories:
  "map_of initial_categories c = (if c \<in> set literal_categories then Some (Num 0) else None)"
  by (simp add: literal_categories_def initial_categories_def)

lemma analyzeResults_category_lookup:
  assumes "\<forall>r\<in>set rs. \<not> isValid r \<longrightarrow> category r \<notin> set object_prototype_keys"
  shows "map_of (categories (analyzeResults rs)) c =
           (if c \<in> set literal_categories \<or> 0 < length (filter (\<lambda>r. counted_as r = c) rs)
            then Some (Num (length (filter (\<lambda>r. counted_as r = c) rs))) else None)"
  using foldl_add_result_category_lookup[OF initial_cats_ok assms, of "length rs" c]
  by (auto simp: analyzeResults_def category_count_def initial_stats_def map_of_initial_categories)

lemma categories_foldl_add_result:
  "categories (foldl add_result st rs) = foldl category_step (categories st) rs"
  by (induction rs arbitrary: st) (simp_all add: add_result_categories category_step_def)

lemma valid_not_prototype_key: "''valid'' \<notin> set object_prototype_keys"
  by (simp add: object_prototype_keys_def)

lemma valid_literal: "''valid'' \<in> set literal_categories"
  by (simp add: literal_categories_def initial_categories_def)

lemma proto_is_prototype_key: "''__proto__'' \<in> set object_prototype_keys"
  by (simp add: object_prototype_keys_def)

lemma category_step_entry:
  assumes "\<And>c. map_of cats c = expected_entry c (k c)"
  shows "map_of (category_step cats r) c
           = expected_entry c (k c + (if counted_as r = c then 1 else 0))"
proof (cases "isValid r")
  case True
  have "map_of cats ''valid'' = Some (Num (k ''valid''))"
    using assms[of "''valid''"]
    by (simp add: expected_entry_def valid_not_prototype_key valid_literal)
  then show ?thesis using True assms[of c]
    by (auto simp: category_step_def incr_valid_category_def counted_as_def
          AList.update_conv' expected_entry_def valid_not_prototype_key valid_literal)
next
  case False
  show ?thesis
  proof (cases "category r = c")
    case True
    then show ?thesis using False assms[of c] proto_is_prototype_key
      by (auto simp: category_step_def incr_category_def counted_as_def
            AList.update_conv' expected_entry_def split: if_splits)
  next
    case ne: False
    have "map_of (incr_category (category r) cats) c = map_of cats c"
      using ne by (auto simp: incr_category_def AList.update_conv'
                     split: option.splits jsval.splits)
    then show ?thesis using False ne assms[of c]
      by (simp add: category_step_def counted_as_def)
  qed
qed

lemma foldl_category_step_entry:
  "map_of (foldl category_step initial_categories rs) c
     = expected_entry c (length (filter (\<lambda>r. counted_as r = c) rs))"
proof (induction rs arbitrary: c rule: rev_induct)
  case Nil
  show ?case
    by (auto simp: expected_entry_def map_of_initial_categories literal_categories_def
          initial_categories_def object_prototype_keys_def)
next
  case (snoc r rs)
  show ?case
    using category_step_entry[of "foldl category_step initial_categories rs"
        "\<lambda>c. length (filter (\<lambda>r. counted_as r = c) rs)" r c, OF snoc.IH]
    by simp
qed

lemma analyzeResults_category_entry:
  "map_of (categories (analyzeResults rs)) c
     = expected_entry c (length (filter (\<lambda>r. counted_as r = c) rs))"
  by (simp add: analyzeResults_def categories_foldl_add_result initial_stats_def
        foldl_category_step_entry)

text \<open>
  C2, as stated, fails. The object literal of \<open>analyzeResults\<close> has ten keys, and
  \<open>processing_error\<close>, a category of the closed set, is not one of them: the aggregate of
  the empty sequence has no entry for it. And a category outside the closed set that is
  the name of a member of \<open>Object.prototype\<close>, such as \<open>toString\<close>, is not added with
  its observed count: observed once, its entry is a string.
\<close>

theorem analyzeResults_categories_counterexample:
  "''processing_error'' \<in> set closed_categories
   \<and> map_of (categories (analyzeResults [])) ''processing_error'' = None
   \<and> observed ''toString'' odd_results = 1
   \<and> map_of (categories (analyzeResults odd_results)) ''toString'' = Some NonNumeric"
  by code_simp

text \<open>
  C2, amended. For every sequence of verdicts (\<open>isValid\<close> exactly when the category is
  \<open>valid\<close>): the ten categories of the closed set other than \<open>processing_error\<close> are present
  in \<open>categories\<close>, each with the number of verdicts of that category, zero when there is
  none; every other category that is not the name of a member of \<open>Object.prototype\<close>,
  \<open>processing_error\<close> included, is present exactly when a verdict has it, with the number of
  such verdicts; a category that is the name of a member of \<open>Object.prototype\<close> never has
  a count: \<open>__proto__\<close> is never present, and any other such name is present exactly when
  a verdict has it, with a string as its entry.
\<close>

theorem analyzeResults_categories:
  assumes "\<forall>r\<in>set rs. isValid r \<longleftrightarrow> category r = ''valid''"
  shows "set literal_categories = set closed_categories - {''processing_error''}
       \<and> (c \<notin> set object_prototype_keys \<longrightarrow>
            map_of (categories (analyzeResults rs)) c =
              (if c \<in> set literal_categories \<or> 0 < observed c rs
               then Some (Num (observed c rs)) else None))
       \<and> (c \<in> set object_prototype_keys \<longrightarrow>
            map_of (categories (analyzeResults rs)) c =
              (if c \<noteq> ''__proto__'' \<and> 0 < observed c rs then Some NonNumeric else None))"
proof -
  have "filter (\<lambda>r. counted_as r = c) rs = filter (\<lambda>r. category r = c) rs"
    using assms by (intro filter_cong) (auto simp: counted_as_def)
  then have "map_of (categories (analyzeResults rs)) c = expected_entry c (observed c rs)"
    by (simp add: analyzeResults_category_entry observed_def)
  moreover have "set literal_categories = set closed_categories - {''processing_error''}"
    by (auto simp: literal_categories_def initial_categories_def closed_categories_def)
  ultimately show ?thesis by (simp add: expected_entry_def)
qed

theorem analyzeResults_categories_witness:
  "list_all (\<lambda>r. isValid r \<longleftrightarrow> category r = ''valid'') odd_results
   \<and> map_of (categories (analyzeResults odd_results)) ''not_existing'' = Some (Num 1)
   \<and> map_of (categories (analyzeResults odd_results)) ''dns_error'' = Some (Num 0)
   \<and> map_of (categories (analyzeResults odd_results)) ''processing_error'' = None
   \<and> map_of (categories (analyzeResults odd_results)) ''toString'' = Some NonNumeric
   \<and> map_of (categories (analyzeResults odd_results)) ''__proto__'' = None"
proof -
  have h: "\<forall>r\<in>set odd_results. isValid r \<longleftrightarrow> category r = ''valid''"
    by (simp add: odd_results_def example_results_def)
  have o: "observed ''not_existing'' odd_results = 1"
    "observed ''dns_error'' odd_results = 0"
    "observed ''processing_error'' odd_results = 0"
    "observed ''toString'' odd_results = 1"
    "observed ''__proto__'' odd_results = 1"
    by (simp_all add: observed_def odd_results_def example_results_def)
  have l: "''not_existing'' \<in> set literal_categories" "''dns_error'' \<in> set literal_categories"
    "''processing_error'' \<notin> set literal_categories"
    by (simp_all add: literal_categories_def initial_categories_def)
  have p: "''not_existing'' \<notin> set object_prototype_keys"
    "''dns_error'' \<notin> set object_prototype_keys"
    "''processing_error'' \<notin> set object_prototype_keys"
    "''toString'' \<in> set object_prototype_keys"
    "''__proto__'' \<in> set object_prototype_keys"
    by (simp_all add: object_prototype_keys_def)
  from analyzeResults_categories[OF h, of "''not_existing''"]
    analyzeResults_categories[OF h, of "''dns_error''"]
    analyzeResults_categories[OF h, of "''processing_error''"]
    analyzeResults_categories[OF h, of "''toString''"]
    analyzeResults_categories[OF h, of "''__proto__''"] h o l p
  show ?thesis by (simp add: list_all_iff)
qed


section \<open>The aggregate of a concatenation\<close>

lemma analyzeResults_category_count:
  assumes "\<forall>r\<in>set rs. \<not> isValid r \<longrightarrow> category r \<notin> set object_prototype_keys"
  shows "category_count (categories (analyzeResults rs)) c
           = length (filter (\<lambda>r. counted_as r = c) rs)"
  using analyzeResults_category_lookup[OF assms, of c]
  by (auto simp: category_count_def)

lemma add_result_valid:
  "valid (add_result st r) = valid st + (if isValid r then 1 else 0)"
  by (simp add: add_result_def Let_def split: option.splits)

lemma add_result_invalid:
  "invalid (add_result st r) = invalid st + (if isValid r then 0 else 1)"
  by (simp add: add_result_def Let_def split: option.splits)

lemma foldl_add_result_valid:
  "valid (foldl add_result st rs) = valid st + length (filter isValid rs)"
  by (induction rs arbitrary: st) (simp_all add: add_result_valid)

lemma foldl_add_result_invalid:
  "invalid (foldl add_result st rs) = invalid st + length (filter (\<lambda>r. \<not> isValid r) rs)"
  by (induction rs arbitrary: st) (simp_all add: add_result_invalid)

lemma analyzeResults_total: "total (analyzeResults rs) = length rs"
  by (simp add: analyzeResults_def foldl_add_result_total initial_stats_def)

lemma analyzeResults_valid: "valid (analyzeResults rs) = length (filter isValid rs)"
  by (simp add: analyzeResults_def foldl_add_result_valid initial_stats_def)

lemma analyzeResults_invalid:
  "invalid (analyzeResults rs) = length (filter (\<lambda>r. \<not> isValid r) rs)"
  by (simp add: analyzeResults_def foldl_add_result_invalid initial_stats_def)

lemma doms_own_iff: "doms_own doms \<longleftrightarrow> (\<forall>k\<in>set object_prototype_keys. map_of doms k = None)"
  by (simp add: doms_own_def list_all_iff)

lemma incr_domain_own:
  assumes "doms_own doms"
  shows "doms_own (incr_domain ok d doms)"
  using assms unfolding doms_own_iff
  by (auto simp: incr_domain_def Let_def AList.update_conv')

lemma incr_domain_total:
  assumes "doms_own doms"
  shows "domain_total (incr_domain ok d doms) d' =
           domain_total doms d' + (if d' = d \<and> d \<notin> set object_prototype_keys then 1 else 0)"
  using assms unfolding doms_own_iff
  by (auto simp: incr_domain_def Let_def AList.update_conv' domain_total_def
        split: option.splits)

lemma add_result_domains:
  "domains (add_result st r) =
     (if CHR ''@'' \<in> set (email r)
      then (case domain_of (email r) of
              Some d \<Rightarrow> incr_domain (isValid r) d (domains st)
            | None \<Rightarrow> domains st)
      else domains st)"
  by (simp add: add_result_def Let_def split: option.splits)

lemma add_result_doms_own:
  "doms_own (domains st) \<Longrightarrow> doms_own (domains (add_result st r))"
  by (simp add: add_result_domains incr_domain_own split: option.splits)

lemma add_result_domain_total:
  assumes "doms_own (domains st)"
  shows "domain_total (domains (add_result st r)) d =
           domain_total (domains st) d + (if counted_domain r = Some d then 1 else 0)"
  using assms
  by (auto simp: add_result_domains incr_domain_total counted_domain_def split: option.splits)

lemma foldl_add_result_domain_total:
  assumes "doms_own (domains st)"
  shows "domain_total (domains (foldl add_result st rs)) d =
           domain_total (domains st) d + length (filter (\<lambda>r. counted_domain r = Some d) rs)"
  using assms
proof (induction rs arbitrary: st)
  case Nil then show ?case by simp
next
  case (Cons r rs)
  from Cons.IH[OF add_result_doms_own[OF Cons.prems], of r]
  show ?case using add_result_domain_total[OF Cons.prems, of r d] by simp
qed

lemma analyzeResults_domain_total:
  "domain_total (domains (analyzeResults rs)) d
     = length (filter (\<lambda>r. counted_domain r = Some d) rs)"
proof -
  have "doms_own (domains (initial_stats (length rs)))"
    by (simp add: doms_own_def initial_stats_def list_all_iff)
  from foldl_add_result_domain_total[OF this, of rs d] show ?thesis
    by (simp add: analyzeResults_def domain_total_def initial_stats_def)
qed

text \<open>
  C9. For any two sequences of verdicts (no category of a verdict that is not valid named
  like a member of \<open>Object.prototype\<close>), whether or not their addresses are disjoint, the
  aggregate of the concatenation is the sum of the two aggregates on \<open>total\<close>, \<open>valid\<close>,
  \<open>invalid\<close>, on the count of every category and on the total of every domain, an absent
  key counting as zero.
\<close>

theorem analyzeResults_append:
  assumes "\<forall>r\<in>set (xs @ ys). \<not> isValid r \<longrightarrow> category r \<notin> set object_prototype_keys"
  shows "total (analyzeResults (xs @ ys)) = total (analyzeResults xs) + total (analyzeResults ys)
       \<and> valid (analyzeResults (xs @ ys)) = valid (analyzeResults xs) + valid (analyzeResults ys)
       \<and> invalid (analyzeResults (xs @ ys))
           = invalid (analyzeResults xs) + invalid (analyzeResults ys)
       \<and> (\<forall>c. category_count (categories (analyzeResults (xs @ ys))) c
                = category_count (categories (analyzeResults xs)) c
                  + category_count (categories (analyzeResults ys)) c)
       \<and> (\<forall>d. domain_total (domains (analyzeResults (xs @ ys))) d
                = domain_total (domains (analyzeResults xs)) d
                  + domain_total (domains (analyzeResults ys)) d)"
proof -
  have hx: "\<forall>r\<in>set xs. \<not> isValid r \<longrightarrow> category r \<notin> set object_prototype_keys"
    and hy: "\<forall>r\<in>set ys. \<not> isValid r \<longrightarrow> category r \<notin> set object_prototype_keys"
    using assms by auto
  show ?thesis
    by (simp add: analyzeResults_total analyzeResults_valid analyzeResults_invalid
          analyzeResults_category_count[OF assms] analyzeResults_category_count[OF hx]
          analyzeResults_category_count[OF hy] analyzeResults_domain_total)
qed

theorem analyzeResults_append_witness:
  "list_all (\<lambda>r. isValid r \<or> category r \<notin> set object_prototype_keys)
     (example_results @ rev example_results)
   \<and> total (analyzeResults (example_results @ rev example_results)) = 6
   \<and> valid (analyzeResults (example_results @ rev example_results))
       = valid (analyzeResults example_results) + valid (analyzeResults (rev example_results))
   \<and> category_count (categories (analyzeResults (example_results @ rev example_results)))
         ''not_existing''
       = category_count (categories (analyzeResults example_results)) ''not_existing''
         + category_count (categories (analyzeResults (rev example_results))) ''not_existing''
   \<and> domain_total (domains (analyzeResults (example_results @ rev example_results))) ''ex.com''
       = domain_total (domains (analyzeResults example_results)) ''ex.com''
         + domain_total (domains (analyzeResults (rev example_results))) ''ex.com''"
proof -
  have h: "\<forall>r\<in>set (example_results @ rev example_results).
             \<not> isValid r \<longrightarrow> category r \<notin> set object_prototype_keys"
    by (simp add: example_results_def object_prototype_keys_def)
  have t: "total (analyzeResults example_results) = 3"
    "total (analyzeResults (rev example_results)) = 3"
    by (simp_all add: analyzeResults_total example_results_def)
  from analyzeResults_append[OF h] h t show ?thesis
    by (auto simp: list_all_iff)
qed

section \<open>The results of a batch\<close>

lemma settle_one_results: "results (settle_one onP onS n addr outcome b) = results b"
  by (simp add: settle_one_def Let_def split: promise.splits)

lemma foldl_settle_results:
  "results (foldl (\<lambda>s (i, addr). settle_one onP onS n addr (verify i addr) s) b order)
     = results b"
  by (induction order arbitrary: b) (simp_all add: settle_one_results split: prod.splits)

lemma group_value_None: "group_value addr outcome = None \<longleftrightarrow> outcome = Pending"
  by (simp add: group_value_def split: promise.splits)

lemma processGroup_results:
  "results (fst (processGroup onP onS verify latency n grp b)) = results b"
  by (simp add: processGroup_def Let_def foldl_settle_results)

lemma all_settled_iff:
  "list_all (\<lambda>v. v \<noteq> None) (map (\<lambda>(i, addr). group_value addr (verify i addr)) grp)
     \<longleftrightarrow> \<not> some_pending verify grp"
  by (induction grp) (auto simp: some_pending_def group_value_def split: promise.splits)

lemma processGroup_values:
  "snd (processGroup onP onS verify latency n grp b) =
     (if some_pending verify grp then None
      else Some (map (\<lambda>(i, addr). the (group_value addr (verify i addr))) grp))"
proof -
  have "map the (map (\<lambda>(i, addr). group_value addr (verify i addr)) grp)
          = map (\<lambda>(i, addr). the (group_value addr (verify i addr))) grp"
    by (simp add: case_prod_beta)
  then show ?thesis
    unfolding processGroup_def Let_def snd_conv all_settled_iff by simp
qed

lemma process_groups_results:
  "process_groups onP onS verify latency n grps b = (b', fin) \<Longrightarrow>
     fin = (\<not> some_pending verify (concat grps)) \<and>
     (fin \<longrightarrow> results b' = results b
        @ map (\<lambda>(i, addr). the (group_value addr (verify i addr))) (concat grps))"
proof (induction grps arbitrary: b)
  case Nil
  then show ?case by (simp add: some_pending_def)
next
  case (Cons grp grps)
  obtain b1 v where pg: "processGroup onP onS verify latency n grp b = (b1, v)"
    by (cases "processGroup onP onS verify latency n grp b")
  have r1: "results b1 = results b" using processGroup_results[of onP onS verify latency n grp b] pg by simp
  have v: "v = (if some_pending verify grp then None
      else Some (map (\<lambda>(i, addr). the (group_value addr (verify i addr))) grp))"
    using processGroup_values[of onP onS verify latency n grp b] pg by simp
  show ?case
  proof (cases "some_pending verify grp")
    case True
    then show ?thesis using Cons.prems pg v by (auto simp: some_pending_def)
  next
    case False
    then have "process_groups onP onS verify latency n grps
        (b1\<lparr>results := results b1 @ map (\<lambda>(i, addr). the (group_value addr (verify i addr))) grp\<rparr>) = (b', fin)"
      using Cons.prems pg v by simp
    from Cons.IH[OF this] show ?thesis using False r1 by (auto simp: some_pending_def)
  qed
qed

lemma concat_split_groups: "concat (split_groups xs) = xs"
proof (induction xs rule: split_groups.induct)
  case (1 xs)
  show ?case
  proof (cases "xs = []")
    case True then show ?thesis by (simp add: split_groups.simps)
  next
    case False
    then show ?thesis using 1 by (subst split_groups.simps) simp
  qed
qed

lemma processBatch_outcome:
  "snd (processBatch onP onS verify latency emails) =
     (if some_pending verify (enumerate 0 emails) then Pending
      else Resolved (batch_verdicts verify emails, analyzeResults (batch_verdicts verify emails)))"
proof -
  obtain b' fin where pg: "process_groups onP onS verify latency (length emails)
             (split_groups (enumerate 0 emails)) \<lparr>results = [], completed = 0, calls = []\<rparr> = (b', fin)"
    by (cases "process_groups onP onS verify latency (length emails)
             (split_groups (enumerate 0 emails)) \<lparr>results = [], completed = 0, calls = []\<rparr>")
  from process_groups_results[OF pg] show ?thesis
    using pg by (auto simp: processBatch_def concat_split_groups batch_verdicts_def Let_def)
qed

lemma batch_verdicts_length: "length (batch_verdicts verify emails) = length emails"
  by (simp add: batch_verdicts_def)

lemma batch_verdicts_nth:
  "i < length emails \<Longrightarrow>
     batch_verdicts verify emails ! i = the (group_value (emails ! i) (verify i (emails ! i)))"
  by (simp add: batch_verdicts_def nth_enumerate_eq)

lemma length_split_groups_le: "\<forall>g\<in>set (split_groups xs). length g \<le> concurrentLimit \<and> g \<noteq> []"
proof (induction xs rule: split_groups.induct)
  case (1 xs)
  show ?case
  proof (cases "xs = []")
    case True then show ?thesis by (simp add: split_groups.simps)
  next
    case False
    then show ?thesis using 1 by (subst split_groups.simps) (auto simp: concurrentLimit_def)
  qed
qed

text \<open>
  C8. \<open>processBatch\<close> returns if and only if the verification of every address settles,
  and then \<open>results\<close> has one entry per address of the batch, the entry at index \<open>i\<close>
  being the verdict \<open>verifyEmail\<close> resolved with for the address at index \<open>i\<close> (or the
  \<open>processing_error\<close> verdict for that address, if it was rejected). The groups are
  consecutive pieces of the batch of at most \<open>concurrentLimit\<close> addresses.
\<close>

theorem processBatch_results:
  "snd (processBatch onP onS verify latency emails) =
     (if some_pending verify (enumerate 0 emails) then Pending
      else Resolved (batch_verdicts verify emails, analyzeResults (batch_verdicts verify emails)))
   \<and> length (batch_verdicts verify emails) = length emails
   \<and> (\<forall>i r. i < length emails \<and> verify i (emails ! i) = Resolved r
          \<longrightarrow> batch_verdicts verify emails ! i = r)
   \<and> (\<forall>i err. i < length emails \<and> verify i (emails ! i) = Rejected err
          \<longrightarrow> batch_verdicts verify emails ! i = errorResult (emails ! i) err)
   \<and> concat (split_groups (enumerate 0 emails)) = enumerate 0 emails
   \<and> (\<forall>g\<in>set (split_groups (enumerate 0 emails)). length g \<le> concurrentLimit)"
  using length_split_groups_le[of "enumerate 0 emails"]
  by (auto simp: processBatch_outcome batch_verdicts_length batch_verdicts_nth group_value_def
        concat_split_groups)

theorem processBatch_results_witness:
  "snd (processBatch True True (\<lambda>i. verifyEmail example_net) (\<lambda>i. 0) example_batch)
     = Resolved (batch_verdicts (\<lambda>i. verifyEmail example_net) example_batch,
                 analyzeResults (batch_verdicts (\<lambda>i. verifyEmail example_net) example_batch))
   \<and> length (batch_verdicts (\<lambda>i. verifyEmail example_net) example_batch) = 7
   \<and> batch_verdicts (\<lambda>i. verifyEmail example_net) example_batch ! 3 = verdict_x
   \<and> length (split_groups (enumerate 0 example_batch)) = 2"
proof -
  have np: "\<not> some_pending (\<lambda>i. verifyEmail example_net) (enumerate 0 example_batch)"
    by code_simp
  have v: "3 < length example_batch \<and> verifyEmail example_net (example_batch ! 3) = Resolved verdict_x"
    by code_simp
  have l: "length example_batch = 7" by (simp add: example_batch_def)
  have g: "length (split_groups (enumerate 0 example_batch)) = 2" by code_simp
  from processBatch_results[of True True "\<lambda>i. verifyEmail example_net" "\<lambda>i. 0" example_batch]
    np v l g
  show ?thesis by auto
qed

section \<open>The statistics callback\<close>

text \<open>
  C3 fails on the code. When \<open>completed\<close> reaches 100, the verdicts of the group in flight
  are not yet in \<open>results\<close>: they are appended only when all promises of the group have
  settled. For a batch of 100 addresses (here all \<open>x\<close>, rejected by the format check), the
  call of \<open>onStatsUpdate\<close> that follows the hundredth call of \<open>onProgress\<close> receives the
  aggregate of 95 verdicts; the last call receives the aggregate of all 100.
\<close>

theorem processBatch_stats_at_100:
  "drop 99 (fst (processBatch True True (\<lambda>i. verifyEmail example_net) (\<lambda>i. 0)
                  (replicate 100 ''x'')))
     = [OnProgress 100 100 verdict_x,
        OnStatsUpdate (analyzeResults (replicate 95 verdict_x)),
        OnStatsUpdate (analyzeResults (replicate 100 verdict_x))]
   \<and> total (analyzeResults (replicate 95 verdict_x)) = 95"
  by code_simp

section \<open>Failures of the MX lookup\<close>

text \<open>
  C1 fails on the code. The callback of \<open>getMxRecords\<close> resolves with the empty list
  whenever the resolver reports an error, whatever the error; the promise is never
  rejected. A lookup that times out therefore gives \<open>no_mx_records\<close>, not \<open>dns_error\<close>.
\<close>

theorem verifyEmail_lookup_timeout:
  "resolveMx example_net ''slow.example'' = DnsReply (Some ''ETIMEOUT'') None
   \<and> getMxRecords (resolveMx example_net) (Some ''slow.example'') = Resolved []
   \<and> verifyEmail example_net ''user@slow.example''
       = Resolved \<lparr>isValid = False, message = msg_no_mx, category = ''no_mx_records'',
                   email = ''user@slow.example'', mxRecords = None, smtpServer = None\<rparr>"
  by code_simp

section \<open>A probe that never settles\<close>

text \<open>
  C10 fails on the code. The handler of the socket's \<open>end\<close> event calls \<open>cleanup\<close>, which
  cancels the timer, and does not resolve. When the server greets and then closes the
  connection, and no \<open>error\<close> event follows, the promise of the probe never settles, and
  neither does \<open>verifyEmail\<close>.
\<close>

theorem checkSmtpServer_end_pending:
  "checkSmtpServer [Connect, Data (''220 mx.ex.com ESMTP'' @ crlf), End] ''mx.ex.com'' ''a@ex.com''
     = Pending
   \<and> verifyEmail closing_net ''a@ex.com'' = Pending"
  by code_simp

section \<open>The results of a probe and the fallback over the MX hosts\<close>

lemma handle_line_ok: "handle_line addr line = Settle r \<Longrightarrow> probe_result_ok r"
  by (auto simp: handle_line_def Let_def probe_result_ok_def probe_categories_def
        msg_exists_def msg_not_existing_def msg_mailbox_error_def msg_temporary_error_def
        msg_server_error_def split: if_splits)

lemma settled_ok_resolve: "settled_ok p \<Longrightarrow> probe_result_ok r \<Longrightarrow> settled_ok (resolve r p)"
  by (auto simp: settled_ok_def resolve_def split: option.splits)

lemma settled_ok_cleanup: "settled_ok (cleanup p) = settled_ok p"
  by (simp add: settled_ok_def cleanup_def)

lemma settled_ok_process_lines: "settled_ok p \<Longrightarrow> settled_ok (process_lines addr ls p)"
proof (induction ls arbitrary: p)
  case Nil then show ?case by simp
next
  case (Cons l ls)
  show ?case
  proof (cases "handle_line addr l")
    case (Send cmd)
    have "settled_ok (p\<lparr>written := written p @ [cmd]\<rparr>)"
      using Cons.prems by (simp add: settled_ok_def)
    from Cons.IH[OF this] show ?thesis using Send by simp
  next
    case (Settle r)
    then show ?thesis
      using Cons.prems handle_line_ok[OF Settle]
      by (simp add: settled_ok_resolve settled_ok_cleanup)
  next
    case Skip
    then show ?thesis using Cons.IH[OF Cons.prems] by simp
  qed
qed

lemma settled_ok_on_event: "settled_ok p \<Longrightarrow> settled_ok (on_event addr p ev)"
proof (cases ev)
  case Connect then show "settled_ok p \<Longrightarrow> ?thesis" by (simp add: on_event_def settled_ok_def)
next
  case (Data chunk)
  assume "settled_ok p"
  then have "settled_ok (p\<lparr>responseBuffer := responseBuffer p @ chunk\<rparr>)"
    by (simp add: settled_ok_def)
  then show ?thesis using Data
    by (simp add: on_event_def on_data_def Let_def settled_ok_process_lines)
next
  case (SocketError msg)
  assume "settled_ok p"
  then show ?thesis using SocketError
    by (simp add: on_event_def settled_ok_resolve settled_ok_cleanup probe_result_ok_def
          probe_categories_def msg_connection_error_def)
next
  case End then show "settled_ok p \<Longrightarrow> ?thesis" by (simp add: on_event_def settled_ok_cleanup)
next
  case TimerFires
  assume "settled_ok p"
  then show ?thesis using TimerFires
    by (simp add: on_event_def settled_ok_resolve settled_ok_cleanup probe_result_ok_def
          probe_categories_def msg_timeout_def)
qed

lemma settled_ok_foldl: "settled_ok p \<Longrightarrow> settled_ok (foldl (on_event addr) p evs)"
  by (induction evs arbitrary: p) (simp_all add: settled_ok_on_event)

lemma checkSmtpServer_not_rejected: "checkSmtpServer events mxHost addr \<noteq> Rejected err"
  by (simp add: checkSmtpServer_def split: option.splits)

lemma checkSmtpServer_resolved_ok:
  assumes "checkSmtpServer events mxHost addr = Resolved s"
  shows "probe_result_ok s"
proof -
  have "settled_ok (foldl (on_event addr) initial_probe (events @ [TimerFires]))"
    by (rule settled_ok_foldl) (simp add: settled_ok_def initial_probe_def)
  then show ?thesis using assms
    by (auto simp: checkSmtpServer_def settled_ok_def split: option.splits)
qed

lemma probe_result_ok_nonempty:
  "probe_result_ok s \<Longrightarrow> category s \<noteq> [] \<and> message s \<noteq> []"
  by (auto simp: probe_result_ok_def probe_categories_def)

lemma probe_hosts_valid:
  assumes "k < length hosts"
    and "\<forall>j<k. refused (checkSmtpServer (socks (i + j)) (hosts ! j) addr)"
    and "checkSmtpServer (socks (i + k)) (hosts ! k) addr = Resolved s" and "isValid s"
  shows "probe_hosts socks addr i hosts result =
           (take (Suc k) hosts,
            Resolved (result\<lparr>isValid := True, message := msg_exists, category := ''valid'',
                             smtpServer := Some (hosts ! k)\<rparr>))"
  using assms
proof (induction hosts arbitrary: i k result)
  case Nil then show ?case by simp
next
  case (Cons h hosts)
  show ?case
  proof (cases k)
    case 0
    then show ?thesis using Cons.prems by simp
  next
    case (Suc k')
    have r0: "refused (checkSmtpServer (socks i) h addr)"
      using Cons.prems(2) Suc by (auto dest: spec[of _ 0])
    then obtain s0 where s0: "checkSmtpServer (socks i) h addr = Resolved s0" "\<not> isValid s0"
      by (auto simp: refused_def split: promise.splits)
    have a: "k' < length hosts" using Cons.prems(1) Suc by simp
    have b: "\<forall>j<k'. refused (checkSmtpServer (socks (Suc i + j)) (hosts ! j) addr)"
    proof (intro allI impI)
      fix j assume "j < k'"
      then have "Suc j < k" using Suc by simp
      from Cons.prems(2)[rule_format, OF this] show "refused (checkSmtpServer (socks (Suc i + j)) (hosts ! j) addr)"
        by simp
    qed
    have c: "checkSmtpServer (socks (Suc i + k')) (hosts ! k') addr = Resolved s"
      using Cons.prems(3) Suc by simp
    from Cons.IH[OF a b c Cons.prems(4)] s0 Suc show ?thesis by simp
  qed
qed

lemma probe_hosts_refused:
  assumes "hosts \<noteq> []"
    and "\<forall>j<length hosts. refused (checkSmtpServer (socks (i + j)) (hosts ! j) addr)"
    and "checkSmtpServer (socks (i + (length hosts - 1))) (last hosts) addr = Resolved s"
  shows "probe_hosts socks addr i hosts result =
           (hosts, Resolved (result\<lparr>message := message s, category := category s,
                                    smtpServer := Some (last hosts)\<rparr>))"
  using assms
proof (induction hosts arbitrary: i result)
  case Nil then show ?case by simp
next
  case (Cons h hosts)
  have r0: "refused (checkSmtpServer (socks i) h addr)"
    using Cons.prems(2) by (auto dest: spec[of _ 0])
  then obtain s0 where s0: "checkSmtpServer (socks i) h addr = Resolved s0" "\<not> isValid s0"
    by (auto simp: refused_def split: promise.splits)
  have ok0: "category s0 \<noteq> [] \<and> message s0 \<noteq> []"
    using checkSmtpServer_resolved_ok[OF s0(1)] by (rule probe_result_ok_nonempty)
  show ?case
  proof (cases "hosts = []")
    case True
    then have "s = s0" using Cons.prems(3) s0 by simp
    then show ?thesis using True s0 ok0 by simp
  next
    case False
    have b: "\<forall>j<length hosts. refused (checkSmtpServer (socks (Suc i + j)) (hosts ! j) addr)"
    proof (intro allI impI)
      fix j assume "j < length hosts"
      then have "Suc j < length (h # hosts)" by simp
      from Cons.prems(2)[rule_format, OF this] show "refused (checkSmtpServer (socks (Suc i + j)) (hosts ! j) addr)"
        by simp
    qed
    have c: "checkSmtpServer (socks (Suc i + (length hosts - 1))) (last hosts) addr = Resolved s"
      using Cons.prems(3) False by (cases hosts) simp_all
    from Cons.IH[OF False b c] s0 ok0 False show ?thesis
      by simp
  qed
qed

text \<open>
  C4. Let the address pass the format check and the lookup give the hosts \<open>mx\<close>. If the
  probe of the host at index \<open>k\<close> resolves valid, every earlier probe having resolved with a
  result that is not valid, then \<open>verifyEmail\<close> gives the valid verdict with that host as
  \<open>details.smtpServer\<close> and has probed the hosts up to index \<open>k\<close> and no further ones.
  If every probe resolves with a result that is not valid (550 and 551 included), all hosts
  are probed and the verdict carries the message and the category of the result of the
  last host.
\<close>

theorem verifyEmail_fallback:
  assumes "isValidFormat addr"
    and "getMxRecords (resolveMx net) (domain_of addr) = Resolved mx"
  shows "(\<forall>k s. k < length mx
            \<and> (\<forall>j<k. refused (checkSmtpServer (sockets net j) (mx ! j) addr))
            \<and> checkSmtpServer (sockets net k) (mx ! k) addr = Resolved s \<and> isValid s
          \<longrightarrow> verifyEmail_run net addr =
                (take (Suc k) mx,
                 Resolved \<lparr>isValid = True, message = msg_exists, category = ''valid'',
                           email = addr, mxRecords = Some mx, smtpServer = Some (mx ! k)\<rparr>))
       \<and> (\<forall>s. mx \<noteq> []
            \<and> (\<forall>j<length mx. refused (checkSmtpServer (sockets net j) (mx ! j) addr))
            \<and> checkSmtpServer (sockets net (length mx - 1)) (last mx) addr = Resolved s
          \<longrightarrow> verifyEmail_run net addr =
                (mx,
                 Resolved \<lparr>isValid = False, message = message s, category = category s,
                           email = addr, mxRecords = Some mx, smtpServer = Some (last mx)\<rparr>))"
proof (intro conjI allI impI)
  fix k s
  assume h: "k < length mx
            \<and> (\<forall>j<k. refused (checkSmtpServer (sockets net j) (mx ! j) addr))
            \<and> checkSmtpServer (sockets net k) (mx ! k) addr = Resolved s \<and> isValid s"
  then have ne: "mx \<noteq> []" by auto
  from h have "probe_hosts (sockets net) addr 0 mx
        \<lparr>isValid = False, message = [], category = ''invalid'', email = addr,
         mxRecords = Some mx, smtpServer = None\<rparr>
      = (take (Suc k) mx, Resolved \<lparr>isValid = True, message = msg_exists, category = ''valid'',
                           email = addr, mxRecords = Some mx, smtpServer = Some (mx ! k)\<rparr>)"
    by (subst probe_hosts_valid[of k mx socks 0 addr s for socks]) auto
  then show "verifyEmail_run net addr =
                (take (Suc k) mx,
                 Resolved \<lparr>isValid = True, message = msg_exists, category = ''valid'',
                           email = addr, mxRecords = Some mx, smtpServer = Some (mx ! k)\<rparr>)"
    using assms ne by (simp add: verifyEmail_run_def)
next
  fix s
  assume h: "mx \<noteq> []
            \<and> (\<forall>j<length mx. refused (checkSmtpServer (sockets net j) (mx ! j) addr))
            \<and> checkSmtpServer (sockets net (length mx - 1)) (last mx) addr = Resolved s"
  then have "probe_hosts (sockets net) addr 0 mx
        \<lparr>isValid = False, message = [], category = ''invalid'', email = addr,
         mxRecords = Some mx, smtpServer = None\<rparr>
      = (mx, Resolved \<lparr>isValid = False, message = message s, category = category s,
                           email = addr, mxRecords = Some mx, smtpServer = Some (last mx)\<rparr>)"
    by (subst probe_hosts_refused[of mx socks 0 addr s for socks]) auto
  then show "verifyEmail_run net addr =
                (mx,
                 Resolved \<lparr>isValid = False, message = message s, category = category s,
                           email = addr, mxRecords = Some mx, smtpServer = Some (last mx)\<rparr>)"
    using assms h by (simp add: verifyEmail_run_def)
qed

theorem verifyEmail_fallback_witness:
  "isValidFormat ''a@ex.com''
   \<and> getMxRecords (resolveMx example_net) (domain_of ''a@ex.com'')
       = Resolved [''mx1.ex.com'', ''mx2.ex.com'']
   \<and> verifyEmail_run example_net ''a@ex.com''
       = ([''mx1.ex.com'', ''mx2.ex.com''],
          Resolved \<lparr>isValid = True, message = msg_exists, category = ''valid'',
                    email = ''a@ex.com'', mxRecords = Some [''mx1.ex.com'', ''mx2.ex.com''],
                    smtpServer = Some ''mx2.ex.com''\<rparr>)
   \<and> verifyEmail_run refusing_net ''a@ex.com''
       = ([''mx1.ex.com'', ''mx2.ex.com''],
          Resolved \<lparr>isValid = False,
                    message = msg_connection_error @ ''connect ECONNREFUSED'',
                    category = ''connection_error'',
                    email = ''a@ex.com'', mxRecords = Some [''mx1.ex.com'', ''mx2.ex.com''],
                    smtpServer = Some ''mx2.ex.com''\<rparr>)"
proof -
  have f: "isValidFormat ''a@ex.com''" by code_simp
  have m: "getMxRecords (resolveMx example_net) (domain_of ''a@ex.com'')
       = Resolved [''mx1.ex.com'', ''mx2.ex.com'']" by code_simp
  have m': "getMxRecords (resolveMx refusing_net) (domain_of ''a@ex.com'')
       = Resolved [''mx1.ex.com'', ''mx2.ex.com'']" by code_simp
  have p0: "refused (checkSmtpServer (sockets example_net 0) ''mx1.ex.com'' ''a@ex.com'')"
    by code_simp
  have p1: "checkSmtpServer (sockets example_net 1) ''mx2.ex.com'' ''a@ex.com''
       = Resolved \<lparr>isValid = True, message = msg_exists, category = ''valid''\<rparr>"
    by code_simp
  have q0: "refused (checkSmtpServer (sockets refusing_net 0) ''mx1.ex.com'' ''a@ex.com'')"
    by code_simp
  have q1: "checkSmtpServer (sockets refusing_net 1) ''mx2.ex.com'' ''a@ex.com''
       = Resolved \<lparr>isValid = False, message = msg_connection_error @ ''connect ECONNREFUSED'',
                   category = ''connection_error''\<rparr>"
    by code_simp
  have q1': "refused (checkSmtpServer (sockets refusing_net 1) ''mx2.ex.com'' ''a@ex.com'')"
    by code_simp
  have a: "verifyEmail_run example_net ''a@ex.com''
       = (take (Suc 1) [''mx1.ex.com'', ''mx2.ex.com''],
          Resolved \<lparr>isValid = True, message = msg_exists, category = ''valid'',
                    email = ''a@ex.com'', mxRecords = Some [''mx1.ex.com'', ''mx2.ex.com''],
                    smtpServer = Some ([''mx1.ex.com'', ''mx2.ex.com''] ! 1)\<rparr>)"
    using verifyEmail_fallback[OF f m, THEN conjunct1, rule_format,
        of 1 "\<lparr>isValid = True, message = msg_exists, category = ''valid''\<rparr>"] p0 p1
    by (simp add: less_Suc_eq)
  have b: "verifyEmail_run refusing_net ''a@ex.com''
       = ([''mx1.ex.com'', ''mx2.ex.com''],
          Resolved \<lparr>isValid = False,
                    message = msg_connection_error @ ''connect ECONNREFUSED'',
                    category = ''connection_error'',
                    email = ''a@ex.com'', mxRecords = Some [''mx1.ex.com'', ''mx2.ex.com''],
                    smtpServer = Some (last [''mx1.ex.com'', ''mx2.ex.com''])\<rparr>)"
    using verifyEmail_fallback[OF f m', THEN conjunct2, rule_format,
        of "\<lparr>isValid = False, message = msg_connection_error @ ''connect ECONNREFUSED'',
             category = ''connection_error''\<rparr>"] q0 q1 q1'
    by (simp add: less_Suc_eq)
  from f m a b show ?thesis by simp
qed

section \<open>The reply lines\<close>

lemma parseInt_220: "parseInt ''220'' = Some 220" by code_simp
lemma parseInt_250: "parseInt ''250'' = Some 250" by code_simp

lemma startsWith_220_code:
  "startsWith line ''220'' \<Longrightarrow> parseInt (take 3 line) = Some 220"
  using parseInt_220 by (simp add: startsWith_def numeral_3_eq_3)

lemma startsWith_250_code:
  "startsWith line ''250'' \<Longrightarrow> parseInt (take 3 line) = Some 250"
  using parseInt_250 by (simp add: startsWith_def numeral_3_eq_3)

lemma handle_line_code:
  assumes "parseInt (take 3 line) = Some n" "n \<noteq> 220" "n \<noteq> 250"
  shows "handle_line addr line =
     (if n = 550 \<or> n = 551
      then Settle \<lparr>isValid = False, message = msg_not_existing, category = ''not_existing''\<rparr>
      else if n = 552 \<or> n = 553
      then Settle \<lparr>isValid = False, message = msg_mailbox_error, category = ''mailbox_error''\<rparr>
      else if n = 421 \<or> n = 450
      then Settle \<lparr>isValid = False, message = msg_temporary_error,
                   category = ''temporary_error''\<rparr>
      else if 500 \<le> n \<and> n \<le> 599
      then Settle \<lparr>isValid = False, message = msg_server_error @ line,
                   category = ''smtp_error''\<rparr>
      else Skip)"
proof -
  have a: "\<not> startsWith line ''220''" using assms startsWith_220_code[of line] by auto
  have b: "\<not> startsWith line ''250''" using assms startsWith_250_code[of line] by auto
  show ?thesis using assms(1) a b by (simp add: handle_line_def Let_def)
qed

lemma handle_line_rcpt:
  assumes "startsWith line ''250''" "includes_str line ''RCPT''"
    "\<not> includes_str line ''HELO''" "\<not> includes_str line ''MAIL''"
  shows "handle_line addr line =
     Settle \<lparr>isValid = True, message = msg_exists, category = ''valid''\<rparr>"
proof -
  have "\<not> startsWith line ''220''" using assms(1) by (auto simp: startsWith_def)
  then show ?thesis using assms by (simp add: handle_line_def Let_def)
qed

lemma process_lines_passes:
  "list_all (\<lambda>l. \<not> settles (handle_line addr l)) ls \<Longrightarrow>
     settled (process_lines addr ls p) = settled p \<and>
     timer_pending (process_lines addr ls p) = timer_pending p"
proof (induction ls arbitrary: p)
  case Nil then show ?case by simp
next
  case (Cons l ls)
  then show ?case by (cases "handle_line addr l") (simp_all add: settles_def)
qed

lemma process_lines_append:
  "list_all (\<lambda>l. \<not> settles (handle_line addr l)) ls \<Longrightarrow>
     process_lines addr (ls @ ls') p = process_lines addr ls' (process_lines addr ls p)"
proof (induction ls arbitrary: p)
  case Nil then show ?case by simp
next
  case (Cons l ls)
  then show ?case by (cases "handle_line addr l") (simp_all add: settles_def)
qed

lemma process_lines_settles:
  assumes "settled p = None" "list_all (\<lambda>l. \<not> settles (handle_line addr l)) before"
    "handle_line addr line = Settle r"
  shows "settled (process_lines addr (before @ line # after) p) = Some r"
proof -
  have "settled (process_lines addr before p) = None"
    using process_lines_passes[OF assms(2), of p] assms(1) by simp
  then show ?thesis using assms(3)
    by (simp add: process_lines_append[OF assms(2)] resolve_def cleanup_def)
qed

lemma on_data_settles:
  assumes "settled p = None"
    "butlast (split_crlf (responseBuffer p @ chunk)) = before @ line # after"
    "list_all (\<lambda>l. \<not> settles (handle_line addr l)) before"
    "handle_line addr line = Settle r"
  shows "settled (on_data addr chunk p) = Some r"
  using process_lines_settles[of "p\<lparr>responseBuffer := responseBuffer p @ chunk\<rparr>" addr before line r after]
    assms by (simp add: on_data_def Let_def)

text \<open>
  C5, as stated, fails: the handler has no state, and it tests for \<open>HELO\<close> and \<open>MAIL\<close>
  before it tests for \<open>RCPT\<close>. After \<open>RCPT TO\<close> has been sent, a line that begins with
  250 and contains \<open>RCPT\<close>, but also \<open>MAIL\<close>, makes the probe send \<open>RCPT TO\<close> again; the
  probe ends with the timeout.
\<close>

theorem on_data_reply_line_counterexample:
  "last (written awaiting_rcpt) = ''RCPT TO: <a@ex.com>'' @ crlf
   \<and> startsWith ''250 RCPT ok, MAIL accepted'' ''250''
   \<and> includes_str ''250 RCPT ok, MAIL accepted'' ''RCPT''
   \<and> handle_line ''a@ex.com'' ''250 RCPT ok, MAIL accepted''
       = Send (''RCPT TO: <a@ex.com>'' @ crlf)
   \<and> settled (on_data ''a@ex.com'' (''250 RCPT ok, MAIL accepted'' @ crlf) awaiting_rcpt) = None
   \<and> checkSmtpServer (greeted @ [Data (''250 RCPT ok, MAIL accepted'' @ crlf)])
         ''mx.ex.com'' ''a@ex.com''
       = Resolved \<lparr>isValid = False, message = msg_timeout, category = ''smtp_timeout''\<rparr>"
  by code_simp

text \<open>
  C5, amended. Let a chunk arrive at a probe that has not settled, and let \<open>line\<close> be a
  complete line of the buffer such that the handler does not return at an earlier line.
  Then the probe resolves \<open>not_existing\<close> if the number parsed from the first three
  characters of the line is 550 or 551, \<open>mailbox_error\<close> if it is 552 or 553,
  \<open>temporary_error\<close> if it is 421 or 450, \<open>smtp_error\<close> with the line in the message if it is
  another number from 500 to 599, and \<open>valid\<close> if the line begins with 250 and contains
  \<open>RCPT\<close> but neither \<open>HELO\<close> nor \<open>MAIL\<close>, whatever has been sent before.
\<close>

theorem on_data_reply_line:
  assumes "settled p = None"
    and "butlast (split_crlf (responseBuffer p @ chunk)) = before @ line # after"
    and "list_all (\<lambda>l. \<not> settles (handle_line addr l)) before"
  shows "(parseInt (take 3 line) = Some 550 \<or> parseInt (take 3 line) = Some 551 \<longrightarrow>
            settled (on_data addr chunk p)
              = Some \<lparr>isValid = False, message = msg_not_existing, category = ''not_existing''\<rparr>)
       \<and> (parseInt (take 3 line) = Some 552 \<or> parseInt (take 3 line) = Some 553 \<longrightarrow>
            settled (on_data addr chunk p)
              = Some \<lparr>isValid = False, message = msg_mailbox_error, category = ''mailbox_error''\<rparr>)
       \<and> (parseInt (take 3 line) = Some 421 \<or> parseInt (take 3 line) = Some 450 \<longrightarrow>
            settled (on_data addr chunk p)
              = Some \<lparr>isValid = False, message = msg_temporary_error,
                       category = ''temporary_error''\<rparr>)
       \<and> (\<forall>n. parseInt (take 3 line) = Some n \<and> 500 \<le> n \<and> n \<le> 599
                \<and> n \<notin> {550, 551, 552, 553} \<longrightarrow>
            settled (on_data addr chunk p)
              = Some \<lparr>isValid = False, message = msg_server_error @ line,
                       category = ''smtp_error''\<rparr>)
       \<and> (startsWith line ''250'' \<and> includes_str line ''RCPT''
            \<and> \<not> includes_str line ''HELO'' \<and> \<not> includes_str line ''MAIL'' \<longrightarrow>
            settled (on_data addr chunk p)
              = Some \<lparr>isValid = True, message = msg_exists, category = ''valid''\<rparr>)"
proof -
  note od = on_data_settles[OF assms]
  show ?thesis
  proof (intro conjI allI impI)
    assume "parseInt (take 3 line) = Some 550 \<or> parseInt (take 3 line) = Some 551"
    then show "settled (on_data addr chunk p)
              = Some \<lparr>isValid = False, message = msg_not_existing, category = ''not_existing''\<rparr>"
      by (intro od) (auto simp: handle_line_code)
  next
    assume "parseInt (take 3 line) = Some 552 \<or> parseInt (take 3 line) = Some 553"
    then show "settled (on_data addr chunk p)
              = Some \<lparr>isValid = False, message = msg_mailbox_error, category = ''mailbox_error''\<rparr>"
      by (intro od) (auto simp: handle_line_code)
  next
    assume "parseInt (take 3 line) = Some 421 \<or> parseInt (take 3 line) = Some 450"
    then show "settled (on_data addr chunk p)
              = Some \<lparr>isValid = False, message = msg_temporary_error,
                       category = ''temporary_error''\<rparr>"
      by (intro od) (auto simp: handle_line_code)
  next
    fix n
    assume "parseInt (take 3 line) = Some n \<and> 500 \<le> n \<and> n \<le> 599
                \<and> n \<notin> {550, 551, 552, 553}"
    then show "settled (on_data addr chunk p)
              = Some \<lparr>isValid = False, message = msg_server_error @ line,
                       category = ''smtp_error''\<rparr>"
      by (intro od) (auto simp: handle_line_code)
  next
    assume "startsWith line ''250'' \<and> includes_str line ''RCPT''
            \<and> \<not> includes_str line ''HELO'' \<and> \<not> includes_str line ''MAIL''"
    then show "settled (on_data addr chunk p)
              = Some \<lparr>isValid = True, message = msg_exists, category = ''valid''\<rparr>"
      by (intro od) (auto simp: handle_line_rcpt)
  qed
qed

theorem on_data_reply_line_witness:
  "settled awaiting_rcpt = None
   \<and> butlast (split_crlf (responseBuffer awaiting_rcpt @ ''550 5.1.1 User unknown'' @ crlf))
       = [''220 mx.ex.com ESMTP'', ''250 HELO ok'', ''250 MAIL ok'']
         @ ''550 5.1.1 User unknown'' # []
   \<and> list_all (\<lambda>l. \<not> settles (handle_line ''a@ex.com'' l))
         [''220 mx.ex.com ESMTP'', ''250 HELO ok'', ''250 MAIL ok'']
   \<and> parseInt (take 3 ''550 5.1.1 User unknown'') = Some 550
   \<and> settled (on_data ''a@ex.com'' (''550 5.1.1 User unknown'' @ crlf) awaiting_rcpt)
       = Some \<lparr>isValid = False, message = msg_not_existing, category = ''not_existing''\<rparr>"
proof -
  have s: "settled awaiting_rcpt = None" by code_simp
  have b: "butlast (split_crlf (responseBuffer awaiting_rcpt @ ''550 5.1.1 User unknown'' @ crlf))
       = [''220 mx.ex.com ESMTP'', ''250 HELO ok'', ''250 MAIL ok'']
         @ ''550 5.1.1 User unknown'' # []" by code_simp
  have l: "list_all (\<lambda>l. \<not> settles (handle_line ''a@ex.com'' l))
         [''220 mx.ex.com ESMTP'', ''250 HELO ok'', ''250 MAIL ok'']" by code_simp
  have c: "parseInt (take 3 ''550 5.1.1 User unknown'') = Some 550" by code_simp
  from on_data_reply_line[OF s b l, THEN conjunct1] s b l c show ?thesis by simp
qed

section \<open>The format check\<close>

lemma in_class_alnum: "in_class cls_alnum c = alphanumeric c"
  by (auto simp: in_class_def cls_alnum_def alphanumeric_def alphabetic_def char_between_def)

lemma in_class_alpha: "in_class cls_alpha c = alphabetic c"
  by (auto simp: in_class_def cls_alpha_def alphabetic_def char_between_def)

lemma in_class_local: "in_class cls_local c = local_char c"
  by (auto simp: in_class_def cls_local_def local_char_def alphanumeric_def alphabetic_def
        char_between_def)

lemma in_class_domain: "in_class cls_domain c = domain_char c"
  by (auto simp: in_class_def cls_domain_def domain_char_def alphanumeric_def alphabetic_def
        char_between_def)

lemma in_class_single: "in_class [Single x] c \<longleftrightarrow> c = x"
  by (simp add: in_class_def)

lemma matches_Piece:
  "matches (Piece cl lo hi # ps) s \<longleftrightarrow>
     (\<exists>u v. s = u @ v \<and> lo \<le> length u \<and> (case hi of None \<Rightarrow> True | Some h \<Rightarrow> length u \<le> h)
            \<and> list_all (in_class cl) u \<and> matches ps v)"
proof
  assume "matches (Piece cl lo hi # ps) s"
  then obtain k where k: "lo \<le> k" "k \<le> (case hi of None \<Rightarrow> length s | Some h \<Rightarrow> min h (length s))"
    "list_all (in_class cl) (take k s)" "matches ps (drop k s)"
    by (auto simp: matches.simps(2) list_ex_iff)
  have kl: "k \<le> length s" using k(2) by (cases hi) auto
  have "s = take k s @ drop k s" by simp
  moreover have "length (take k s) = k" using kl by simp
  moreover have "case hi of None \<Rightarrow> True | Some h \<Rightarrow> k \<le> h" using k(2) by (cases hi) auto
  ultimately show "\<exists>u v. s = u @ v \<and> lo \<le> length u \<and> (case hi of None \<Rightarrow> True | Some h \<Rightarrow> length u \<le> h)
            \<and> list_all (in_class cl) u \<and> matches ps v"
    using k by metis
next
  assume "\<exists>u v. s = u @ v \<and> lo \<le> length u \<and> (case hi of None \<Rightarrow> True | Some h \<Rightarrow> length u \<le> h)
            \<and> list_all (in_class cl) u \<and> matches ps v"
  then obtain u v where uv: "s = u @ v" "lo \<le> length u"
    "case hi of None \<Rightarrow> True | Some h \<Rightarrow> length u \<le> h" "list_all (in_class cl) u" "matches ps v"
    by auto
  have "length u \<le> (case hi of None \<Rightarrow> length s | Some h \<Rightarrow> min h (length s))"
    using uv(1,3) by (cases hi) auto
  then show "matches (Piece cl lo hi # ps) s"
    using uv by (auto simp: matches.simps(2) list_ex_iff intro!: bexI[of _ "length u"])
qed

lemma matches_one:
  "matches (Piece cl (Suc 0) (Some (Suc 0)) # ps) s
     \<longleftrightarrow> (\<exists>c v. s = c # v \<and> in_class cl c \<and> matches ps v)"
proof
  assume "matches (Piece cl (Suc 0) (Some (Suc 0)) # ps) s"
  then obtain u v where uv: "s = u @ v" "Suc 0 \<le> length u" "length u \<le> Suc 0"
    "list_all (in_class cl) u" "matches ps v"
    unfolding matches_Piece by auto
  then obtain c where "u = [c]" by (cases u) auto
  then show "\<exists>c v. s = c # v \<and> in_class cl c \<and> matches ps v" using uv by auto
next
  assume "\<exists>c v. s = c # v \<and> in_class cl c \<and> matches ps v"
  then obtain c v where cv: "s = c # v" "in_class cl c" "matches ps v" by auto
  have "s = [c] @ v \<and> Suc 0 \<le> length [c]
          \<and> (case Some (Suc 0) of None \<Rightarrow> True | Some h \<Rightarrow> length [c] \<le> h)
          \<and> list_all (in_class cl) [c] \<and> matches ps v"
    using cv by simp
  then show "matches (Piece cl (Suc 0) (Some (Suc 0)) # ps) s"
    unfolding matches_Piece by blast
qed

lemma matches_head_rest:
  "matches (Piece cl1 (Suc 0) (Some (Suc 0)) # Piece cl2 0 (Some n) # ps) s \<longleftrightarrow>
     (\<exists>w v. s = w @ v \<and> w \<noteq> [] \<and> in_class cl1 (hd w) \<and> length (tl w) \<le> n
            \<and> list_all (in_class cl2) (tl w) \<and> matches ps v)"
proof
  assume "matches (Piece cl1 (Suc 0) (Some (Suc 0)) # Piece cl2 0 (Some n) # ps) s"
  then obtain c v1 where c: "s = c # v1" "in_class cl1 c" "matches (Piece cl2 0 (Some n) # ps) v1"
    unfolding matches_one by auto
  from c(3) obtain u v where u: "v1 = u @ v" "length u \<le> n" "list_all (in_class cl2) u"
    "matches ps v"
    unfolding matches_Piece by auto
  have "s = (c # u) @ v \<and> c # u \<noteq> [] \<and> in_class cl1 (hd (c # u)) \<and> length (tl (c # u)) \<le> n
            \<and> list_all (in_class cl2) (tl (c # u)) \<and> matches ps v"
    using c u by simp
  then show "\<exists>w v. s = w @ v \<and> w \<noteq> [] \<and> in_class cl1 (hd w) \<and> length (tl w) \<le> n
            \<and> list_all (in_class cl2) (tl w) \<and> matches ps v" by blast
next
  assume "\<exists>w v. s = w @ v \<and> w \<noteq> [] \<and> in_class cl1 (hd w) \<and> length (tl w) \<le> n
            \<and> list_all (in_class cl2) (tl w) \<and> matches ps v"
  then obtain w v where wv: "s = w @ v" "w \<noteq> []" "in_class cl1 (hd w)" "length (tl w) \<le> n"
            "list_all (in_class cl2) (tl w)" "matches ps v" by auto
  then obtain c u where w: "w = c # u" by (cases w) auto
  have "tl w @ v = tl w @ v \<and> 0 \<le> length (tl w)
          \<and> (case Some n of None \<Rightarrow> True | Some h \<Rightarrow> length (tl w) \<le> h)
          \<and> list_all (in_class cl2) (tl w) \<and> matches ps v"
    using wv by simp
  then have "matches (Piece cl2 0 (Some n) # ps) (tl w @ v)"
    unfolding matches_Piece by blast
  then have "s = c # (u @ v) \<and> in_class cl1 c \<and> matches (Piece cl2 0 (Some n) # ps) (u @ v)"
    using wv w by simp
  then show "matches (Piece cl1 (Suc 0) (Some (Suc 0)) # Piece cl2 0 (Some n) # ps) s"
    unfolding matches_one by blast
qed

lemma matches_single:
  "matches (Piece [Single x] (Suc 0) (Some (Suc 0)) # ps) s \<longleftrightarrow> (\<exists>v. s = x # v \<and> matches ps v)"
  by (auto simp: matches_one in_class_single)

lemma matches_tail:
  "matches [Piece cl 2 None] s \<longleftrightarrow> 2 \<le> length s \<and> list_all (in_class cl) s"
  by (auto simp: matches_Piece)

lemma list_all_cong_pred: "(\<And>c. P c = Q c) \<Longrightarrow> list_all P xs = list_all Q xs"
  by (induction xs) auto

lemma isValidFormat_iff_spec: "isValidFormat addr \<longleftrightarrow> spec_format addr"
proof -
  have "isValidFormat addr \<longleftrightarrow>
      (\<exists>l v. addr = l @ v \<and> spec_local l \<and>
         (\<exists>v'. v = CHR ''@'' # v' \<and>
            (\<exists>d v2. v' = d @ v2 \<and> spec_domain d \<and>
               (\<exists>t. v2 = CHR ''.'' # t \<and> spec_tld t))))"
    unfolding isValidFormat_def pattern_def
    by (simp add: matches_head_rest matches_single matches_tail
          in_class_alnum spec_local_def spec_domain_def spec_tld_def
          list_all_cong_pred[of "in_class cls_local" local_char, OF in_class_local]
          list_all_cong_pred[of "in_class cls_domain" domain_char, OF in_class_domain]
          list_all_cong_pred[of "in_class cls_alpha" alphabetic, OF in_class_alpha])
  also have "\<dots> \<longleftrightarrow> spec_format addr"
  proof
    assume "\<exists>l v. addr = l @ v \<and> spec_local l \<and>
         (\<exists>v'. v = CHR ''@'' # v' \<and>
            (\<exists>d v2. v' = d @ v2 \<and> spec_domain d \<and>
               (\<exists>t. v2 = CHR ''.'' # t \<and> spec_tld t)))"
    then show "spec_format addr" unfolding spec_format_def by auto
  next
    assume "spec_format addr"
    then obtain l d t where ldt: "addr = l @ ''@'' @ d @ ''.'' @ t" "spec_local l"
      "spec_domain d" "spec_tld t"
      unfolding spec_format_def by auto
    have inner: "\<exists>d' v2. d @ CHR ''.'' # t = d' @ v2 \<and> spec_domain d' \<and>
               (\<exists>t'. v2 = CHR ''.'' # t' \<and> spec_tld t')"
      using ldt(3,4) by blast
    have "addr = l @ (CHR ''@'' # d @ CHR ''.'' # t)" using ldt(1) by simp
    then show "\<exists>l v. addr = l @ v \<and> spec_local l \<and>
         (\<exists>v'. v = CHR ''@'' # v' \<and>
            (\<exists>d v2. v' = d @ v2 \<and> spec_domain d \<and>
               (\<exists>t. v2 = CHR ''.'' # t \<and> spec_tld t)))"
      using ldt(2) inner by blast
  qed
  finally show ?thesis .
qed

lemma local_char_not_at: "local_char c \<Longrightarrow> c \<noteq> CHR ''@''"
  by (auto simp: local_char_def alphanumeric_def alphabetic_def char_between_def)

lemma alphanumeric_not_at: "alphanumeric c \<Longrightarrow> c \<noteq> CHR ''@''"
  by (auto simp: alphanumeric_def alphabetic_def char_between_def)

lemma spec_local_no_at:
  assumes "l \<noteq> []" "alphanumeric (hd l)" "list_all local_char (tl l)"
  shows "CHR ''@'' \<notin> set l"
proof -
  obtain c u where l: "l = c # u" using assms(1) by (cases l) auto
  then show ?thesis using assms alphanumeric_not_at[of c] local_char_not_at
    by (auto simp: list_all_iff)
qed

lemma split_at_unique:
  assumes "x \<notin> set l" "x \<notin> set l'" "l @ x # r = l' @ x # r'"
  shows "l = l'"
proof -
  have "takeWhile (\<lambda>c. c \<noteq> x) (l @ x # r) = l" using assms(1)
    by (induction l) auto
  moreover have "takeWhile (\<lambda>c. c \<noteq> x) (l' @ x # r') = l'" using assms(2)
    by (induction l') auto
  ultimately show ?thesis using assms(3) by simp
qed

lemma isValidFormat_local_length:
  assumes "l \<noteq> []" "alphanumeric (hd l)" "list_all local_char (tl l)"
    and "spec_domain d" "spec_tld t"
  shows "isValidFormat (l @ ''@'' @ d @ ''.'' @ t) \<longleftrightarrow> length l \<le> 64"
proof
  assume "isValidFormat (l @ ''@'' @ d @ ''.'' @ t)"
  then obtain l' d' t' where e: "l @ ''@'' @ d @ ''.'' @ t = l' @ ''@'' @ d' @ ''.'' @ t'"
    and l': "spec_local l'"
    unfolding isValidFormat_iff_spec spec_format_def by auto
  have "CHR ''@'' \<notin> set l'" using l' by (intro spec_local_no_at) (auto simp: spec_local_def)
  moreover have "CHR ''@'' \<notin> set l" using assms(1-3) by (rule spec_local_no_at)
  ultimately have "l = l'" using e split_at_unique[of "CHR ''@''" l l'] by simp
  then show "length l \<le> 64" using l' by (cases l') (auto simp: spec_local_def)
next
  assume "length l \<le> 64"
  then have "spec_local l" using assms(1-3) by (cases l) (auto simp: spec_local_def)
  then show "isValidFormat (l @ ''@'' @ d @ ''.'' @ t)"
    unfolding isValidFormat_iff_spec spec_format_def using assms(4,5) by blast
qed

lemma verifyEmail_invalid_format:
  "\<not> isValidFormat addr \<Longrightarrow>
     verifyEmail net addr =
       Resolved \<lparr>isValid = False, message = msg_invalid_format, category = ''invalid_format'',
                 email = addr, mxRecords = None, smtpServer = None\<rparr>"
  by (simp add: verifyEmail_def verifyEmail_run_def)

text \<open>
  C6. \<open>isValidFormat\<close> accepts an address if and only if it has the form the rule
  describes. In particular, with a local part that starts with an alphanumeric character
  and continues with characters of \<open>A-Za-z0-9._%+-\<close>, and a domain and a top-level domain
  as the rule requires, an address whose local part has 64 characters is accepted, and for
  one whose local part has 65 characters \<open>verifyEmail\<close> gives \<open>invalid_format\<close>.
\<close>

theorem isValidFormat_rule:
  "(isValidFormat addr \<longleftrightarrow> spec_format addr)
   \<and> (\<forall>l d t. l \<noteq> [] \<and> alphanumeric (hd l) \<and> list_all local_char (tl l)
          \<and> spec_domain d \<and> spec_tld t \<longrightarrow>
        (length l = 64 \<longrightarrow> isValidFormat (l @ ''@'' @ d @ ''.'' @ t))
        \<and> (length l = 65 \<longrightarrow>
             (\<forall>net. verifyEmail net (l @ ''@'' @ d @ ''.'' @ t) =
                Resolved \<lparr>isValid = False, message = msg_invalid_format,
                          category = ''invalid_format'', email = l @ ''@'' @ d @ ''.'' @ t,
                          mxRecords = None, smtpServer = None\<rparr>)))"
proof (intro conjI allI impI)
  show "isValidFormat addr \<longleftrightarrow> spec_format addr" by (rule isValidFormat_iff_spec)
next
  fix l d t
  assume h: "l \<noteq> [] \<and> alphanumeric (hd l) \<and> list_all local_char (tl l)
          \<and> spec_domain d \<and> spec_tld t" and "length l = 64"
  then show "isValidFormat (l @ ''@'' @ d @ ''.'' @ t)"
    using isValidFormat_local_length[of l d t] by simp
next
  fix l d t net
  assume h: "l \<noteq> [] \<and> alphanumeric (hd l) \<and> list_all local_char (tl l)
          \<and> spec_domain d \<and> spec_tld t" and "length l = 65"
  then have "\<not> isValidFormat (l @ ''@'' @ d @ ''.'' @ t)"
    using isValidFormat_local_length[of l d t] by simp
  then show "verifyEmail net (l @ ''@'' @ d @ ''.'' @ t) =
                Resolved \<lparr>isValid = False, message = msg_invalid_format,
                          category = ''invalid_format'', email = l @ ''@'' @ d @ ''.'' @ t,
                          mxRecords = None, smtpServer = None\<rparr>"
    by (rule verifyEmail_invalid_format)
qed

theorem isValidFormat_rule_witness:
  "(isValidFormat ''a@ex.com'' \<longleftrightarrow> spec_format ''a@ex.com'')
   \<and> spec_domain ''ex'' \<and> spec_tld ''com''
   \<and> isValidFormat (replicate 64 (CHR ''a'') @ ''@'' @ ''ex'' @ ''.'' @ ''com'')
   \<and> verifyEmail example_net (replicate 65 (CHR ''a'') @ ''@'' @ ''ex'' @ ''.'' @ ''com'')
       = Resolved \<lparr>isValid = False, message = msg_invalid_format,
                   category = ''invalid_format'',
                   email = replicate 65 (CHR ''a'') @ ''@'' @ ''ex'' @ ''.'' @ ''com'',
                   mxRecords = None, smtpServer = None\<rparr>"
proof -
  have d: "spec_domain ''ex'' \<and> spec_tld ''com''" by code_simp
  have l64: "replicate 64 (CHR ''a'') \<noteq> [] \<and> alphanumeric (hd (replicate 64 (CHR ''a'')))
             \<and> list_all local_char (tl (replicate 64 (CHR ''a'')))" by code_simp
  have l65: "replicate 65 (CHR ''a'') \<noteq> [] \<and> alphanumeric (hd (replicate 65 (CHR ''a'')))
             \<and> list_all local_char (tl (replicate 65 (CHR ''a'')))" by code_simp
  note r = isValidFormat_rule[of "''a@ex.com''"]
  have a: "isValidFormat (replicate 64 (CHR ''a'') @ ''@'' @ ''ex'' @ ''.'' @ ''com'')"
    using r[THEN conjunct2, rule_format, of "replicate 64 (CHR ''a'')" "''ex''" "''com''",
        THEN conjunct1] d l64 by simp
  have b: "verifyEmail example_net (replicate 65 (CHR ''a'') @ ''@'' @ ''ex'' @ ''.'' @ ''com'')
       = Resolved \<lparr>isValid = False, message = msg_invalid_format,
                   category = ''invalid_format'',
                   email = replicate 65 (CHR ''a'') @ ''@'' @ ''ex'' @ ''.'' @ ''com'',
                   mxRecords = None, smtpServer = None\<rparr>"
    using r[THEN conjunct2, rule_format, of "replicate 65 (CHR ''a'')" "''ex''" "''com''",
        THEN conjunct2] d l65 by simp
  from r[THEN conjunct1] d a b show ?thesis by simp
qed

end
